theory Spec2Isabelle
  imports Complex_Main "HOL-Library.Sublist"
begin

section \<open>Python strings\<close>

text \<open>
  A Python \<open>str\<close> is modelled as a \<open>string\<close>: every \<open>char\<close> stands for the code point
  of the same number, so the model covers the strings whose code points lie in 0..255.
  The library functions below are the ones \<open>src/app/main.py\<close> and \<open>src/cli.py\<close> call.
\<close>

definition isspace :: "char \<Rightarrow> bool" where
  \<comment> \<open>the code points below 256 that \<open>str.strip\<close>, \<open>str.isspace\<close> and the regex class
      \<open>\s\<close> treat as whitespace\<close>
  "isspace c \<longleftrightarrow> c \<in> set [CHR 0x09, CHR 0x0A, CHR 0x0B, CHR 0x0C, CHR 0x0D,
     CHR 0x1C, CHR 0x1D, CHR 0x1E, CHR 0x1F, CHR 0x20, CHR 0x85, CHR 0xA0]"

definition islinebreak :: "char \<Rightarrow> bool" where
  \<comment> \<open>the code points below 256 at which \<open>str.splitlines\<close> ends a line\<close>
  "islinebreak c \<longleftrightarrow> c \<in> set [CHR 0x0A, CHR 0x0B, CHR 0x0C, CHR 0x0D,
     CHR 0x1C, CHR 0x1D, CHR 0x1E, CHR 0x85]"

definition lstrip :: "string \<Rightarrow> string" where
  "lstrip s = dropWhile isspace s"

definition rstrip :: "string \<Rightarrow> string" where
  "rstrip s = rev (dropWhile isspace (rev s))"

definition strip :: "string \<Rightarrow> string" where
  \<comment> \<open>\<open>s.strip()\<close>\<close>
  "strip s = rstrip (lstrip s)"

definition startswith :: "string \<Rightarrow> string \<Rightarrow> bool" where
  \<comment> \<open>\<open>s.startswith(p)\<close>\<close>
  "startswith s p \<longleftrightarrow> prefix p s"

definition lower_letters :: string where
  "lower_letters = ''abcdefghijklmnopqrstuvwxyz'' @
     [CHR 0xE0, CHR 0xE1, CHR 0xE2, CHR 0xE3, CHR 0xE4, CHR 0xE5, CHR 0xE6, CHR 0xE7,
      CHR 0xE8, CHR 0xE9, CHR 0xEA, CHR 0xEB, CHR 0xEC, CHR 0xED, CHR 0xEE, CHR 0xEF,
      CHR 0xF0, CHR 0xF1, CHR 0xF2, CHR 0xF3, CHR 0xF4, CHR 0xF5, CHR 0xF6,
      CHR 0xF8, CHR 0xF9, CHR 0xFA, CHR 0xFB, CHR 0xFC, CHR 0xFD, CHR 0xFE]"

definition upper_letters :: string where
  "upper_letters = ''ABCDEFGHIJKLMNOPQRSTUVWXYZ'' @
     [CHR 0xC0, CHR 0xC1, CHR 0xC2, CHR 0xC3, CHR 0xC4, CHR 0xC5, CHR 0xC6, CHR 0xC7,
      CHR 0xC8, CHR 0xC9, CHR 0xCA, CHR 0xCB, CHR 0xCC, CHR 0xCD, CHR 0xCE, CHR 0xCF,
      CHR 0xD0, CHR 0xD1, CHR 0xD2, CHR 0xD3, CHR 0xD4, CHR 0xD5, CHR 0xD6,
      CHR 0xD8, CHR 0xD9, CHR 0xDA, CHR 0xDB, CHR 0xDC, CHR 0xDD, CHR 0xDE]"

definition upper_char :: "char \<Rightarrow> string" where
  \<comment> \<open>\<open>c.upper()\<close> for one code point: the sharp s becomes two letters; the micro sign
      and the y with diaeresis have their capitals above 255 and are kept as they are
      (neither capital is an ASCII character)\<close>
  "upper_char c =
     (if c = CHR 0xDF then ''SS''
      else case map_of (zip lower_letters upper_letters) c of
             Some u \<Rightarrow> [u]
           | None \<Rightarrow> [c])"

definition upper :: "string \<Rightarrow> string" where
  \<comment> \<open>\<open>s.upper()\<close>\<close>
  "upper s = concat (map upper_char s)"

fun partition :: "string \<Rightarrow> string \<Rightarrow> (string \<times> string) option" where
  \<comment> \<open>the text before and after the first occurrence of a non-empty separator\<close>
  "partition sep [] = None"
| "partition sep (c # cs) =
     (if prefix sep (c # cs) then Some ([], drop (length sep) (c # cs))
      else map_option (\<lambda>(a, b). (c # a, b)) (partition sep cs))"

definition split_once :: "string \<Rightarrow> string \<Rightarrow> string list" where
  \<comment> \<open>\<open>s.split(sep, 1)\<close> for a non-empty \<open>sep\<close>\<close>
  "split_once sep s =
     (case partition sep s of None \<Rightarrow> [s] | Some (a, b) \<Rightarrow> [a, b])"

fun splitlines :: "string \<Rightarrow> string list" where
  \<comment> \<open>\<open>s.splitlines()\<close>: line ends are dropped, a carriage return followed by a line
      feed is one line end, and a final line end opens no further line\<close>
  "splitlines [] = []"
| "splitlines (c # cs) =
     (if c = CHR 0x0D \<and> cs \<noteq> [] \<and> hd cs = CHR 0x0A then [] # splitlines (tl cs)
      else if islinebreak c then [] # splitlines cs
      else (case splitlines cs of [] \<Rightarrow> [[c]] | l # ls \<Rightarrow> (c # l) # ls))"

fun join :: "string \<Rightarrow> string list \<Rightarrow> string" where
  \<comment> \<open>\<open>sep.join(xs)\<close>\<close>
  "join sep [] = []"
| "join sep [x] = x"
| "join sep (x # y # ys) = x @ sep @ join sep (y # ys)"

fun next_index :: "('a \<Rightarrow> bool) \<Rightarrow> 'a list \<Rightarrow> nat option" where
  \<comment> \<open>\<open>next((i for i, x in enumerate(xs) if P(x)), None)\<close>\<close>
  "next_index P [] = None"
| "next_index P (x # xs) = (if P x then Some 0 else map_option Suc (next_index P xs))"

section \<open>The regular expression of the extractor\<close>

text \<open>
  Both files search the section with
  \<^verbatim>\<open>re.search(r"```(?:dockerfile)?\s*([\s\S]*?)```", section, re.IGNORECASE)\<close>.
  The matcher is modelled as the backtracking search it is: each part of the pattern
  lists the remainders it can leave, in the order in which the matcher tries them, and
  the first complete match wins. The value is group 1.
\<close>

definition fence :: string where
  "fence = ''```''"

definition lower_char :: "char \<Rightarrow> char" where
  "lower_char c = (case map_of (zip upper_letters lower_letters) c of Some l \<Rightarrow> l | None \<Rightarrow> c)"

fun match_literal_ci :: "string \<Rightarrow> string \<Rightarrow> string option" where
  \<comment> \<open>a literal under \<open>re.IGNORECASE\<close>: the remainder after it, if it matches here\<close>
  "match_literal_ci [] s = Some s"
| "match_literal_ci (p # ps) [] = None"
| "match_literal_ci (p # ps) (c # cs) =
     (if lower_char c = lower_char p then match_literal_ci ps cs else None)"

definition opt_dockerfile :: "string \<Rightarrow> string list" where
  \<comment> \<open>\<open>(?:dockerfile)?\<close> is greedy: with the word first, then without it\<close>
  "opt_dockerfile s =
     (case match_literal_ci ''dockerfile'' s of Some r \<Rightarrow> [r, s] | None \<Rightarrow> [s])"

fun ws_star :: "string \<Rightarrow> string list" where
  \<comment> \<open>\<open>\s*\<close> is greedy: the longest run of whitespace first, the empty run last\<close>
  "ws_star [] = [[]]"
| "ws_star (c # cs) = (if isspace c then ws_star cs @ [c # cs] else [c # cs])"

fun lazy_group :: "string \<Rightarrow> string option" where
  \<comment> \<open>\<open>([\s\S]*?)```\<close>: the shortest text that the closing fence follows\<close>
  "lazy_group [] = None"
| "lazy_group (c # cs) =
     (if prefix fence (c # cs) then Some [] else map_option ((#) c) (lazy_group cs))"

fun first_some :: "'a option list \<Rightarrow> 'a option" where
  "first_some [] = None"
| "first_some (None # xs) = first_some xs"
| "first_some (Some x # xs) = Some x"

definition match_here :: "string \<Rightarrow> string option" where
  \<comment> \<open>the pattern anchored at the start of \<open>s\<close>\<close>
  "match_here s =
     (if prefix fence s
      then first_some (map lazy_group (concat (map ws_star (opt_dockerfile (drop 3 s)))))
      else None)"

fun re_search :: "string \<Rightarrow> string option" where
  \<comment> \<open>\<open>re.search\<close>: the leftmost position at which the pattern matches\<close>
  "re_search [] = None"
| "re_search (c # cs) =
     (case match_here (c # cs) of Some g \<Rightarrow> Some g | None \<Rightarrow> re_search cs)"

section \<open>The response extractor\<close>

definition SUMMARY :: string where
  "SUMMARY = ''---SUMMARY---''"

definition is_from_line :: "string \<Rightarrow> bool" where
  \<comment> \<open>\<open>ln.strip().upper().startswith("FROM ")\<close>\<close>
  "is_from_line line \<longleftrightarrow> startswith (upper (strip line)) ''FROM ''"

definition extract_dockerfile :: "string \<Rightarrow> string" where
  \<comment> \<open>main.py 121-129 and 132-139, cli.py 99-107: the fenced block, else the text from
      the first FROM line; with neither, \<open>dockerfile_content\<close> keeps its initial
      value, the empty string\<close>
  "extract_dockerfile section =
     (case re_search section of
        Some group1 \<Rightarrow> strip group1
      | None \<Rightarrow>
          (let lines = splitlines section in
           case next_index is_from_line lines of
             Some start_idx \<Rightarrow> strip (join ''\<newline>'' (drop start_idx lines))
           | None \<Rightarrow> ''''))"

section \<open>JSON values and the reply of the completion endpoint\<close>

text \<open>
  \<open>resp.json()\<close> yields a Python object built from \<open>None\<close>, booleans, numbers, strings,
  lists and dictionaries. A dictionary is the list of its items; a number is modelled by
  its value, of which the code observes only whether it is zero.
\<close>

datatype json =
    JNull
  | JBool bool
  | JNum rat
  | JStr string
  | JArr "json list"
  | JObj "(string \<times> json) list"

datatype py_exn = AttributeError | TypeError | KeyError | IndexError

fun truthy :: "json \<Rightarrow> bool" where
  \<comment> \<open>the truth value Python gives an object in \<open>if x:\<close> and \<open>not x\<close>\<close>
  "truthy JNull = False"
| "truthy (JBool b) = b"
| "truthy (JNum n) = (n \<noteq> 0)"
| "truthy (JStr s) = (s \<noteq> [])"
| "truthy (JArr xs) = (xs \<noteq> [])"
| "truthy (JObj items) = (items \<noteq> [])"

fun is_dict :: "json \<Rightarrow> bool" where
  "is_dict (JObj items) = True"
| "is_dict _ = False"

fun py_get :: "json \<Rightarrow> string \<Rightarrow> json \<Rightarrow> py_exn + json" where
  \<comment> \<open>\<open>obj.get(key, default)\<close>: only a dictionary has the method\<close>
  "py_get (JObj items) key dflt = Inr (case map_of items key of Some v \<Rightarrow> v | None \<Rightarrow> dflt)"
| "py_get _ key dflt = Inl AttributeError"

fun py_first :: "json \<Rightarrow> py_exn + json" where
  \<comment> \<open>\<open>obj[0]\<close>; the keys of a parsed JSON object are strings, never \<open>0\<close>\<close>
  "py_first (JArr (x # xs)) = Inr x"
| "py_first (JArr []) = Inl IndexError"
| "py_first (JStr (c # cs)) = Inr (JStr [c])"
| "py_first (JStr []) = Inl IndexError"
| "py_first (JObj items) = Inl KeyError"
| "py_first _ = Inl TypeError"

definition and_then :: "'e + 'a \<Rightarrow> ('a \<Rightarrow> 'e + 'b) \<Rightarrow> 'e + 'b" where
  \<comment> \<open>the next statement runs unless the previous one raised\<close>
  "and_then r f = (case r of Inl e \<Rightarrow> Inl e | Inr x \<Rightarrow> f x)"

definition try_content :: "json \<Rightarrow> py_exn + json" where
  \<comment> \<open>main.py 99-102, cli.py 81-84: the body of the \<open>try\<close>; \<open>content\<close> starts as the
      empty string\<close>
  "try_content data =
     and_then (if is_dict data then py_get data ''choices'' (JArr []) else Inr (JArr []))
       (\<lambda>choices.
          if truthy choices
          then and_then (py_first choices) (\<lambda>choice.
               and_then (py_get choice ''message'' (JObj [])) (\<lambda>message.
               py_get message ''content'' (JStr '''')))
          else Inr (JStr ''''))"

definition reply_content :: "json \<Rightarrow> json" where
  \<comment> \<open>main.py 97-104, cli.py 79-86: any exception leaves the empty string\<close>
  "reply_content data = (case try_content data of Inr content \<Rightarrow> content | Inl e \<Rightarrow> JStr '''')"

definition py_item :: "'a list \<Rightarrow> nat \<Rightarrow> py_exn + 'a" where
  \<comment> \<open>\<open>xs[i]\<close> for an index that is not negative\<close>
  "py_item xs i = (if i < length xs then Inr (xs ! i) else Inl IndexError)"

definition service_parse :: "string \<Rightarrow> py_exn + string \<times> string" where
  \<comment> \<open>main.py 113-139, the body of the \<open>try\<close> on a reply that is a \<open>str\<close>:
      \<open>(dockerfile_content, summary_content)\<close>, or the exception of an index out of
      range\<close>
  "service_parse content =
     (let parts = split_once SUMMARY content in
      if length parts = 2
      then and_then (py_item parts 0) (\<lambda>part0.
           and_then (py_item parts 1) (\<lambda>part1.
             let dockerfile_section = strip part0;
                 summary_content = strip part1
             in Inr (extract_dockerfile dockerfile_section, summary_content)))
      else Inr (extract_dockerfile content, ''''))"

definition cli_parse :: "string \<Rightarrow> py_exn + string" where
  \<comment> \<open>cli.py 93-107, the body of the \<open>try\<close> on a reply that is a \<open>str\<close>\<close>
  "cli_parse content =
     (let parts = split_once SUMMARY content in
      and_then (py_item parts 0) (\<lambda>part0.
        let dockerfile_section = strip part0
        in Inr (extract_dockerfile dockerfile_section)))"

definition service_try :: "json \<Rightarrow> py_exn + string \<times> string" where
  \<comment> \<open>main.py 113-139: on a reply that is not a \<open>str\<close> the first statement,
      \<open>content.split\<close>, raises\<close>
  "service_try content =
     (case content of JStr s \<Rightarrow> service_parse s | _ \<Rightarrow> Inl AttributeError)"

definition service_extract :: "json \<Rightarrow> json \<times> string" where
  \<comment> \<open>main.py 110-141: \<open>except Exception: dockerfile_content = content\<close>\<close>
  "service_extract content =
     (case service_try content of
        Inr (dockerfile_content, summary_content) \<Rightarrow> (JStr dockerfile_content, summary_content)
      | Inl e \<Rightarrow> (content, ''''))"

definition cli_try :: "json \<Rightarrow> py_exn + string" where
  \<comment> \<open>cli.py 93-107\<close>
  "cli_try content =
     (case content of JStr s \<Rightarrow> cli_parse s | _ \<Rightarrow> Inl AttributeError)"

definition cli_extract :: "json \<Rightarrow> json" where
  \<comment> \<open>cli.py 92-109\<close>
  "cli_extract content =
     (case cli_try content of
        Inr dockerfile_content \<Rightarrow> JStr dockerfile_content
      | Inl e \<Rightarrow> content)"

section \<open>The outbound call\<close>

record chat_request =
  url :: string
  authorization :: string
  model :: string
  system_message :: string
  user_message :: string
  temperature :: rat
  max_tokens :: "nat option"
  timeout :: nat

text \<open>
  What \<open>requests.post\<close> followed by \<open>resp.json()\<close> can give: a timeout, another
  exception of the client library (with its text), or a response with its status, its
  body text and the parsed body (or the text of the decoding error).
\<close>

datatype post_result =
    Timeout string
  | RequestFailed string
  | Response int string "string + json"

definition system_prompt :: string where
  "system_prompt =
     ''You are an expert DevOps assistant specialized in Dockerfile optimization. '' @
     ''Return your response in exactly this format:\<newline>\<newline>'' @
     ''```dockerfile\<newline>[OPTIMIZED_DOCKERFILE_CONTENT]\<newline>```\<newline>\<newline>'' @
     ''---SUMMARY---\<newline>'' @
     ''[Brief summary of changes and optimizations made]\<newline>\<newline>'' @
     ''Do not include any other text or explanations outside these sections.''"

definition endpoint :: string where
  "endpoint = ''https://routellm.abacus.ai/v1/chat/completions''"

fun str_nat :: "nat \<Rightarrow> string" where
  "str_nat n = (if n < 10 then [''0123456789'' ! n]
                else str_nat (n div 10) @ [''0123456789'' ! (n mod 10)])"

definition str_int :: "int \<Rightarrow> string" where
  \<comment> \<open>\<open>str(i)\<close>, as an f-string formats an integer\<close>
  "str_int i = (if i < 0 then ''-'' @ str_nat (nat (- i)) else str_nat (nat i))"

section \<open>The HTTP service, \<open>src/app/main.py\<close>\<close>

record environment =
  ABACUS_API_KEY :: "string option"
  ABACUS_MODEL :: "string option"

datatype failure =
    HTTPException int string
  | ValidationError

record optimize_response =
  result :: string
  summary :: string

definition service_user_prompt :: "string \<Rightarrow> string" where
  "service_user_prompt dockerfile =
     ''\<newline>Optimize the following Dockerfile for better performance, less layers, smaller image size, and faster build time.\<newline>'' @
     ''\<newline>Don't make any changes to the Dockerfile that are not necessary for optimization.\<newline>'' @
     ''\<newline>Original Dockerfile:\<newline>\<newline>```\<newline>'' @ dockerfile @ ''\<newline>```\<newline>''"

definition service_request :: "string \<Rightarrow> string \<Rightarrow> string \<Rightarrow> chat_request" where
  "service_request api_key mdl dockerfile =
     \<lparr>url = endpoint, authorization = ''Bearer '' @ api_key, model = mdl,
      system_message = system_prompt, user_message = service_user_prompt dockerfile,
      temperature = 2 / 10, max_tokens = None, timeout = 60\<rparr>"

definition service_data :: "post_result \<Rightarrow> failure + json" where
  \<comment> \<open>main.py 87-95\<close>
  "service_data r =
     (case r of
        Response status text body \<Rightarrow>
          if status \<ge> 400 then Inl (HTTPException status text)
          else (case body of
                  Inr data \<Rightarrow> Inr data
                | Inl exc \<Rightarrow> Inl (HTTPException 502 (''Abacus request failed: '' @ exc)))
      | Timeout exc \<Rightarrow> Inl (HTTPException 502 (''Abacus request failed: '' @ exc))
      | RequestFailed exc \<Rightarrow> Inl (HTTPException 502 (''Abacus request failed: '' @ exc)))"

definition make_response :: "json \<Rightarrow> string \<Rightarrow> failure + optimize_response" where
  \<comment> \<open>\<open>OptimizeResponse(result=..., summary=...)\<close>: the field \<open>result\<close> is declared \<open>str\<close>\<close>
  "make_response dockerfile_content summary_content =
     (case dockerfile_content of
        JStr s \<Rightarrow> Inr \<lparr>result = s, summary = summary_content\<rparr>
      | _ \<Rightarrow> Inl ValidationError)"

definition optimize ::
  "environment \<Rightarrow> (chat_request \<Rightarrow> post_result) \<Rightarrow> string
     \<Rightarrow> (failure + optimize_response) \<times> chat_request list" where
  \<comment> \<open>main.py 40-143: the outcome of the handler and the outbound calls it made\<close>
  "optimize env post dockerfile =
     (if dockerfile = [] \<or> strip dockerfile = []
      then (Inl (HTTPException 400 ''dockerfile is required''), [])
      else case ABACUS_API_KEY env of
        None \<Rightarrow> (Inl (HTTPException 500 ''ABACUS_API_KEY is not set''), [])
      | Some api_key \<Rightarrow>
          if api_key = [] then (Inl (HTTPException 500 ''ABACUS_API_KEY is not set''), [])
          else
            (let mdl = (case ABACUS_MODEL env of Some m \<Rightarrow> m | None \<Rightarrow> ''gpt-5-mini'');
                 request = service_request api_key mdl dockerfile
             in case service_data (post request) of
                  Inl f \<Rightarrow> (Inl f, [request])
                | Inr data \<Rightarrow>
                    (let content = reply_content data in
                     if \<not> truthy content
                     then (Inl (HTTPException 502 ''Empty response from Abacus ChatLLM''),
                           [request])
                     else (case service_extract content of
                             (dockerfile_content, summary_content) \<Rightarrow>
                               (make_response dockerfile_content summary_content,
                                [request])))))"

section \<open>The command-line tool, \<open>src/cli.py\<close>\<close>

datatype runtime_error = RuntimeError string

definition cli_user_prompt :: "string \<Rightarrow> string" where
  "cli_user_prompt dockerfile_content =
     ''\<newline>Optimize the following Dockerfile for better performance, less layers, smaller image size, and faster build time.\<newline>'' @
     ''\<newline>Original Dockerfile:\<newline>\<newline>```\<newline>'' @ dockerfile_content @ ''\<newline>```\<newline>''"

definition cli_request :: "string \<Rightarrow> string \<Rightarrow> string \<Rightarrow> chat_request" where
  "cli_request api_key mdl dockerfile_content =
     \<lparr>url = endpoint, authorization = ''Bearer '' @ api_key, model = mdl,
      system_message = system_prompt, user_message = cli_user_prompt dockerfile_content,
      temperature = 1 / 10, max_tokens = Some 2000, timeout = 90\<rparr>"

definition cli_data :: "post_result \<Rightarrow> runtime_error + json" where
  \<comment> \<open>cli.py 69-77; the \<open>RuntimeError\<close> raised for a status of 400 or more is caught
      by \<open>except Exception\<close> of the same \<open>try\<close> and wrapped\<close>
  "cli_data r =
     (case r of
        Response status text body \<Rightarrow>
          if status \<ge> 400
          then Inl (RuntimeError (''Abacus request failed: '' @
                 ''API request failed: '' @ str_int status @ '' - '' @ text))
          else (case body of
                  Inr data \<Rightarrow> Inr data
                | Inl exc \<Rightarrow> Inl (RuntimeError (''Abacus request failed: '' @ exc)))
      | Timeout exc \<Rightarrow> Inl (RuntimeError ''Request timeout - try with a simpler Dockerfile'')
      | RequestFailed exc \<Rightarrow> Inl (RuntimeError (''Abacus request failed: '' @ exc)))"

definition optimize_dockerfile ::
  "(chat_request \<Rightarrow> post_result) \<Rightarrow> string \<Rightarrow> string \<Rightarrow> string
     \<Rightarrow> (runtime_error + json) \<times> chat_request list" where
  \<comment> \<open>cli.py 20-111: the value returned or the error raised, and the calls of
      \<open>session.post\<close> (the retries of the adapter happen inside one such call)\<close>
  "optimize_dockerfile post dockerfile_content api_key mdl =
     (let request = cli_request api_key mdl dockerfile_content
      in case cli_data (post request) of
           Inl e \<Rightarrow> (Inl e, [request])
         | Inr data \<Rightarrow>
             (let content = reply_content data in
              if \<not> truthy content
              then (Inl (RuntimeError ''Empty response from Abacus ChatLLM''), [request])
              else (Inr (cli_extract content), [request])))"

record arguments =
  arg_input :: "string option"
  arg_output :: "string option"
  arg_model :: string
  arg_api_key :: "string option"

datatype file_read = FileText string | FileNotFoundError | FileReadError string

datatype stdin_read = StdinText string | KeyboardInterrupt | StdinReadError string

text \<open>
  What the process finds around it: the environment variable, the files it may open,
  standard input, whether writing a value to a path raises (and with which text), and
  the endpoint.
\<close>

record surroundings =
  env_api_key :: "string option"
  read_file :: "string \<Rightarrow> file_read"
  read_stdin :: stdin_read
  write_file :: "string \<Rightarrow> json \<Rightarrow> string option"
  session_post :: "chat_request \<Rightarrow> post_result"

record run =
  exit_code :: int
  stderr :: "string list"
  stdout :: "json list"
  writes :: "(string \<times> json) list"
  posts :: "chat_request list"

definition exit_with :: "int \<Rightarrow> string list \<Rightarrow> run" where
  \<comment> \<open>the process ends having printed only the given lines, on the error stream\<close>
  "exit_with code lines =
     \<lparr>exit_code = code, stderr = lines, stdout = [], writes = [], posts = []\<rparr>"

definition present :: "string option \<Rightarrow> bool" where
  \<comment> \<open>the truth value of an optional string: neither \<open>None\<close> nor empty\<close>
  "present x = (case x of None \<Rightarrow> False | Some s \<Rightarrow> s \<noteq> [])"

definition read_input :: "surroundings \<Rightarrow> arguments \<Rightarrow> string list + string" where
  \<comment> \<open>cli.py 158-177: the text read, or the line printed before \<open>sys.exit(1)\<close>\<close>
  "read_input w args =
     (if present (arg_input args)
      then (case read_file w (the (arg_input args)) of
              FileText t \<Rightarrow> Inr t
            | FileNotFoundError \<Rightarrow>
                Inl [''Error: Input file '' @ [CHR 0x27] @ the (arg_input args) @ [CHR 0x27]
                       @ '' not found'']
            | FileReadError e \<Rightarrow> Inl [''Error reading input file: '' @ e])
      else (case read_stdin w of
              StdinText t \<Rightarrow> Inr t
            | KeyboardInterrupt \<Rightarrow> Inl [''\<newline>Operation cancelled'']
            | StdinReadError e \<Rightarrow> Inl [''Error reading from stdin: '' @ e]))"

definition main :: "surroundings \<Rightarrow> arguments \<Rightarrow> run" where
  \<comment> \<open>cli.py 114-202\<close>
  "main w args =
     (let api_key = (if present (arg_api_key args) then arg_api_key args else env_api_key w) in
      if \<not> present api_key
      then exit_with 1 [''Error: ABACUS_API_KEY environment variable not set'',
                        ''Set it with: export ABACUS_API_KEY=your_key_here'']
      else case read_input w args of
        Inl err \<Rightarrow> exit_with 1 err
      | Inr dockerfile_content \<Rightarrow>
          if strip dockerfile_content = []
          then exit_with 1 [''Error: No Dockerfile content provided'']
          else
            (case optimize_dockerfile (session_post w) dockerfile_content (the api_key)
                    (arg_model args) of
               (Inl (RuntimeError e), calls) \<Rightarrow>
                 \<lparr>exit_code = 1,
                  stderr = [''Optimizing Dockerfile...'', ''Error: '' @ e],
                  stdout = [], writes = [], posts = calls\<rparr>
             | (Inr optimized, calls) \<Rightarrow>
                 if present (arg_output args)
                 then (case write_file w (the (arg_output args)) optimized of
                         None \<Rightarrow>
                           \<lparr>exit_code = 0,
                            stderr = [''Optimizing Dockerfile...'',
                              ''Optimized Dockerfile written to: '' @ the (arg_output args)],
                            stdout = [],
                            writes = [(the (arg_output args), optimized)], posts = calls\<rparr>
                       | Some e \<Rightarrow>
                           \<lparr>exit_code = 1,
                            stderr = [''Optimizing Dockerfile...'',
                              ''Error writing to output file: '' @ e],
                            stdout = [],
                            writes = [(the (arg_output args), optimized)], posts = calls\<rparr>)
                 else \<lparr>exit_code = 0, stderr = [''Optimizing Dockerfile...''],
                       stdout = [optimized], writes = [], posts = calls\<rparr>))"

section \<open>Auxiliary notions\<close>

text \<open>
  Notions used to state and prove the properties below; none of them occurs in the source.
\<close>

definition spaces :: "string \<Rightarrow> bool" where
  \<comment> \<open>a text of whitespace only (the empty text included)\<close>
  "spaces w \<longleftrightarrow> (\<forall>c \<in> set w. isspace c)"

fun tail_ext :: "string list \<Rightarrow> string \<Rightarrow> string list \<Rightarrow> string list" where
  \<comment> \<open>the lines \<open>L\<close> with \<open>u\<close> appended to the last one, followed by the lines \<open>Ws\<close>\<close>
  "tail_ext [] u Ws = Ws"
| "tail_ext [l] u Ws = (l @ u) # Ws"
| "tail_ext (l # l2 # ls) u Ws = l # tail_ext (l2 # ls) u Ws"

definition blank_tail :: "string list \<Rightarrow> string list \<Rightarrow> bool" where
  \<comment> \<open>\<open>L'\<close> is \<open>L\<close> up to whitespace after its last line\<close>
  "blank_tail L' L \<longleftrightarrow> (\<exists>u Ws. spaces u \<and> (\<forall>l \<in> set Ws. spaces l) \<and> L' = tail_ext L u Ws)"

definition push :: "char \<Rightarrow> string list \<Rightarrow> string list" where
  \<comment> \<open>a character put in front of the first line\<close>
  "push c L = (case L of [] \<Rightarrow> [[c]] | l # ls \<Rightarrow> (c # l) # ls)"

definition from_tail :: "string list \<Rightarrow> string" where
  \<comment> \<open>the lines from the first FROM line on, joined and trimmed\<close>
  "from_tail L = strip (join ''\<newline>'' (dropWhile (\<lambda>l. \<not> is_from_line l) L))"

definition refusing_endpoint :: "chat_request \<Rightarrow> post_result" where
  \<comment> \<open>an endpoint that cannot be reached, for the examples\<close>
  "refusing_endpoint request = RequestFailed ''connection refused''"

definition no_file :: "string \<Rightarrow> file_read" where
  \<comment> \<open>a file system without the input file, for the examples\<close>
  "no_file path = FileNotFoundError"

definition accept_write :: "string \<Rightarrow> json \<Rightarrow> string option" where
  \<comment> \<open>every write succeeds, for the examples\<close>
  "accept_write path v = None"

definition empty_choices_endpoint :: "chat_request \<Rightarrow> post_result" where
  \<comment> \<open>an endpoint that answers with an empty list of choices, for the examples\<close>
  "empty_choices_endpoint request =
     Response 200 ''{\"choices\": []}'' (Inr (JObj [(''choices'', JArr [])]))"

definition bad_gateway_endpoint :: "chat_request \<Rightarrow> post_result" where
  \<comment> \<open>an endpoint that answers with status 502 and the text of the empty response as its body, for the examples\<close>
  "bad_gateway_endpoint request =
     Response 502 ''Empty response from Abacus ChatLLM'' (Inl ''Expecting value'')"

definition from_a_endpoint :: "chat_request \<Rightarrow> post_result" where
  \<comment> \<open>an endpoint whose first choice has a one-line Dockerfile as content, for the examples\<close>
  "from_a_endpoint request =
     Response 200 []
       (Inr (JObj [(''choices'',
          JArr [JObj [(''message'', JObj [(''content'', JStr ''FROM a'')])]])]))"

definition untagged :: "string \<Rightarrow> string" where
  \<comment> \<open>a text without a leading word \<open>dockerfile\<close>, in any letter case\<close>
  "untagged C = (if map lower_char (take 10 C) = ''dockerfile'' then drop 10 C else C)"

fun unify_line_ends :: "string \<Rightarrow> string" where
  \<comment> \<open>a text with every line end (a carriage return with its line feed counts as one) replaced by a line feed\<close>
  "unify_line_ends [] = []"
| "unify_line_ends (c # cs) =
     (if c = CHR 0x0D \<and> cs \<noteq> [] \<and> hd cs = CHR 0x0A then CHR 0x0A # unify_line_ends (tl cs)
      else if islinebreak c then CHR 0x0A # unify_line_ends cs
      else c # unify_line_ends cs)"

definition empty_reply :: "json \<Rightarrow> bool" where
  \<comment> \<open>a parsed response with an empty \<open>choices\<close> list, or whose first choice has the empty string as message content\<close>
  "empty_reply data \<longleftrightarrow>
     (\<exists>items. data = JObj items \<and>
        (map_of items ''choices'' = Some (JArr []) \<or>
         (\<exists>citems rest mitems.
            map_of items ''choices'' = Some (JArr (JObj citems # rest)) \<and>
            map_of citems ''message'' = Some (JObj mitems) \<and>
            map_of mitems ''content'' = Some (JStr []))))"

section \<open>Facts about the string functions\<close>

lemma isspace_not_backtick: "isspace c \<Longrightarrow> c \<noteq> CHR 0x60"
  by (auto simp: isspace_def)

lemma islinebreak_isspace: "islinebreak c \<Longrightarrow> isspace c"
  by (auto simp: islinebreak_def isspace_def)

lemma spaces_simps [simp]:
  "spaces []" "spaces (c # w) \<longleftrightarrow> isspace c \<and> spaces w"
  "spaces (u @ w) \<longleftrightarrow> spaces u \<and> spaces w"
  by (auto simp: spaces_def)

lemma lstrip_simps [simp]:
  "lstrip [] = []"
  "isspace c \<Longrightarrow> lstrip (c # s) = lstrip s"
  "\<not> isspace c \<Longrightarrow> lstrip (c # s) = c # s"
  by (simp_all add: lstrip_def)

lemma lstrip_spaces_append: "spaces w \<Longrightarrow> lstrip (w @ s) = lstrip s"
  by (induction w) auto

lemma lstrip_spaces: "spaces w \<Longrightarrow> lstrip w = []"
  using lstrip_spaces_append [of w "[]"] by simp

lemma lstrip_idem [simp]: "lstrip (lstrip s) = lstrip s"
  by (induction s) (auto simp: lstrip_def)

lemma rstrip_snoc [simp]:
  "rstrip [] = []"
  "isspace c \<Longrightarrow> rstrip (s @ [c]) = rstrip s"
  "\<not> isspace c \<Longrightarrow> rstrip (s @ [c]) = s @ [c]"
  by (simp_all add: rstrip_def)

lemma rstrip_append_spaces: "spaces w \<Longrightarrow> rstrip (s @ w) = rstrip s"
proof (induction w rule: rev_induct)
  case Nil
  then show ?case by simp
next
  case (snoc c w)
  then have "rstrip ((s @ w) @ [c]) = rstrip (s @ w)" by (intro rstrip_snoc(2)) simp
  with snoc show ?case by simp
qed

lemma rstrip_spaces: "spaces w \<Longrightarrow> rstrip w = []"
  using rstrip_append_spaces [of w "[]"] by simp

lemma lstrip_append_spaces:
  "spaces w \<Longrightarrow> lstrip (s @ w) = (if spaces s then [] else lstrip s @ w)"
  by (auto simp: lstrip_def spaces_def dropWhile_append)

lemma strip_append_spaces: "spaces w \<Longrightarrow> strip (s @ w) = strip s"
  by (simp add: strip_def lstrip_append_spaces rstrip_append_spaces lstrip_spaces rstrip_spaces)

lemma strip_spaces_append: "spaces w \<Longrightarrow> strip (w @ s) = strip s"
  by (simp add: strip_def lstrip_spaces_append)

lemma strip_spaces: "spaces w \<Longrightarrow> strip w = []"
  using strip_append_spaces [of w "[]"] by (simp add: strip_def)

lemma strip_Cons_space: "isspace c \<Longrightarrow> strip (c # s) = strip s"
  by (simp add: strip_def)

lemma rstrip_decomp: "\<exists>w. spaces w \<and> s = rstrip s @ w"
proof (induction s rule: rev_induct)
  case Nil
  then show ?case by simp
next
  case (snoc c s)
  then obtain w where w: "spaces w" "s = rstrip s @ w" by blast
  show ?case
  proof (cases "isspace c")
    case True
    then have "rstrip (s @ [c]) = rstrip s" by simp
    moreover have "s @ [c] = rstrip s @ (w @ [c])" using w(2) by simp
    moreover have "spaces (w @ [c])" using w(1) True by simp
    ultimately show ?thesis by metis
  next
    case False
    then have "rstrip (s @ [c]) = s @ [c]" by simp
    then show ?thesis by (intro exI [of _ "[]"]) simp
  qed
qed

lemma lstrip_decomp: "\<exists>w. spaces w \<and> s = w @ lstrip s"
proof (induction s)
  case Nil
  then show ?case by simp
next
  case (Cons c s)
  then obtain w where w: "spaces w" "s = w @ lstrip s" by blast
  show ?case
  proof (cases "isspace c")
    case True
    with w have "spaces (c # w) \<and> c # s = (c # w) @ lstrip (c # s)" by simp
    then show ?thesis by blast
  next
    case False
    then show ?thesis by (intro exI [of _ "[]"]) simp
  qed
qed

lemma strip_idem: "strip (strip s) = strip s"
proof -
  obtain w where w: "spaces w" "lstrip s = rstrip (lstrip s) @ w"
    using rstrip_decomp by blast
  have "strip s = strip (lstrip s)" by (simp add: strip_def)
  also have "\<dots> = strip (rstrip (lstrip s) @ w)" using w(2) by simp
  also have "\<dots> = strip (rstrip (lstrip s))" using w(1) by (rule strip_append_spaces)
  finally show ?thesis by (simp add: strip_def)
qed

lemma prefix_append_foreign:
  "p \<noteq> [] \<Longrightarrow> \<forall>c \<in> set w. c \<notin> set p \<Longrightarrow> prefix p (t @ w) = prefix p t"
proof (induction t arbitrary: p)
  case Nil
  then show ?case by (cases p; cases w) auto
next
  case (Cons a t)
  then show ?case by (cases p; cases "tl p") auto
qed

lemma prefix_fence_append_spaces: "spaces w \<Longrightarrow> prefix fence (t @ w) = prefix fence t"
  by (rule prefix_append_foreign) (auto simp: fence_def spaces_def dest: isspace_not_backtick)

lemma prefix_fence_space: "isspace c \<Longrightarrow> \<not> prefix fence (c # s)"
  by (auto simp: fence_def dest: isspace_not_backtick)

lemma lazy_group_spaces: "spaces w \<Longrightarrow> lazy_group w = None"
  by (induction w) (auto simp: prefix_fence_space)

lemma lazy_group_append_spaces: "spaces w \<Longrightarrow> lazy_group (r @ w) = lazy_group r"
proof (induction r)
  case Nil
  then show ?case by (simp add: lazy_group_spaces)
next
  case (Cons c r)
  have "prefix fence ((c # r) @ w) = prefix fence (c # r)"
    using Cons.prems by (rule prefix_fence_append_spaces)
  with Cons show ?case by simp
qed

lemma lazy_group_lstrip_None: "lazy_group (lstrip r) = None \<Longrightarrow> lazy_group r = None"
proof (induction r)
  case Nil
  then show ?case by simp
next
  case (Cons a r)
  show ?case
  proof (cases "isspace a")
    case True
    with Cons have "lazy_group r = None" by simp
    with True show ?thesis by (simp add: prefix_fence_space)
  next
    case False
    with Cons.prems show ?thesis by simp
  qed
qed

lemma first_some_single [simp]: "first_some [x] = x"
  by (cases x) auto

lemma lazy_group_decomp: "lazy_group r = Some g \<Longrightarrow> \<exists>rest. r = g @ fence @ rest"
proof (induction r arbitrary: g)
  case Nil
  then show ?case by simp
next
  case (Cons c r)
  show ?case
  proof (cases "prefix fence (c # r)")
    case True
    with Cons.prems have "g = []" by simp
    with True show ?thesis by (auto simp: prefix_def)
  next
    case False
    with Cons.prems obtain g' where g': "lazy_group r = Some g'" "g = c # g'" by auto
    from Cons.IH [OF g'(1)] g'(2) show ?thesis by auto
  qed
qed

lemma lazy_group_fence: "lazy_group (fence @ rest) = Some []"
  by (simp add: fence_def)

lemma lazy_group_skip:
  "\<not> sublist fence x \<Longrightarrow> c \<noteq> CHR 0x60 \<Longrightarrow>
   lazy_group (x @ c # t) = map_option (\<lambda>g. x @ c # g) (lazy_group t)"
proof (induction x)
  case Nil
  then show ?case by (simp add: fence_def option.map_comp comp_def)
next
  case (Cons a x)
  have "\<not> sublist fence x" using Cons.prems(1) by (auto simp: sublist_Cons_right)
  then have IH: "lazy_group (x @ c # t) = map_option (\<lambda>g. x @ c # g) (lazy_group t)"
    using Cons.IH Cons.prems(2) by blast
  have "\<not> prefix fence (a # x)" using Cons.prems(1) by (auto simp: sublist_Cons_right)
  moreover have "prefix fence ((a # x) @ c # t) = prefix fence (a # x)"
  proof -
    have "prefix fence ((a # x) @ [c]) = prefix fence (a # x)"
      by (rule prefix_append_foreign) (use Cons.prems(2) in \<open>auto simp: fence_def\<close>)
    moreover have "prefix fence ((a # x) @ c # t) \<Longrightarrow> prefix fence ((a # x) @ [c])"
      using Cons.prems(2) by (cases x; cases "tl x") (auto simp: fence_def)
    moreover have "prefix fence (a # x) \<Longrightarrow> prefix fence ((a # x) @ c # t)"
      by (metis prefix_prefix)
    ultimately show ?thesis by blast
  qed
  ultimately have "\<not> prefix fence (a # x @ c # t)" by simp
  then show ?case using IH by (simp add: option.map_comp comp_def)
qed

lemma first_some_append:
  "first_some (xs @ ys) = (case first_some xs of Some g \<Rightarrow> Some g | None \<Rightarrow> first_some ys)"
  by (induction xs rule: first_some.induct) auto

lemma ws_star_lazy: "first_some (map lazy_group (ws_star r)) = lazy_group (lstrip r)"
proof (induction r)
  case Nil
  then show ?case by simp
next
  case (Cons c r)
  show ?case
  proof (cases "isspace c")
    case True
    show ?thesis
    proof (cases "lazy_group (lstrip r)")
      case None
      then have "lazy_group r = None" by (rule lazy_group_lstrip_None)
      with None Cons True show ?thesis
        by (simp add: first_some_append prefix_fence_space)
    next
      case (Some g)
      with Cons True show ?thesis by (simp add: first_some_append)
    qed
  next
    case False
    then show ?thesis by simp
  qed
qed

lemma match_here_simp:
  "match_here s =
     (if prefix fence s
      then (case match_literal_ci ''dockerfile'' (drop 3 s) of
              Some r \<Rightarrow> (case lazy_group (lstrip r) of
                           Some g \<Rightarrow> Some g
                         | None \<Rightarrow> lazy_group (lstrip (drop 3 s)))
            | None \<Rightarrow> lazy_group (lstrip (drop 3 s)))
      else None)"
  by (simp add: match_here_def opt_dockerfile_def first_some_append ws_star_lazy
        split: option.splits)

lemma lower_char_table:
  "map lower_char [CHR 0x09, CHR 0x0A, CHR 0x0B, CHR 0x0C, CHR 0x0D,
     CHR 0x1C, CHR 0x1D, CHR 0x1E, CHR 0x1F, CHR 0x20, CHR 0x85, CHR 0xA0] =
   [CHR 0x09, CHR 0x0A, CHR 0x0B, CHR 0x0C, CHR 0x0D,
     CHR 0x1C, CHR 0x1D, CHR 0x1E, CHR 0x1F, CHR 0x20, CHR 0x85, CHR 0xA0]"
  by (simp add: lower_char_def upper_letters_def lower_letters_def)

lemma lower_char_space: "isspace c \<Longrightarrow> lower_char c = c"
  using lower_char_table by (auto simp: isspace_def)

lemma match_literal_spaces:
  "spaces w \<Longrightarrow> \<forall>c \<in> set p. lower_char c = c \<and> \<not> isspace c \<Longrightarrow> p \<noteq> [] \<Longrightarrow>
   match_literal_ci p w = None"
  by (cases p; cases w) (auto simp: lower_char_space)

lemma match_literal_append_spaces:
  "spaces w \<Longrightarrow> \<forall>c \<in> set p. lower_char c = c \<and> \<not> isspace c \<Longrightarrow>
   match_literal_ci p (r @ w) = map_option (\<lambda>x. x @ w) (match_literal_ci p r)"
proof (induction p r rule: match_literal_ci.induct)
  case (1 s)
  then show ?case by simp
next
  case (2 p ps)
  then show ?case using match_literal_spaces [of w "p # ps"] by simp
next
  case (3 p ps c cs)
  then show ?case by simp
qed

lemma dockerfile_letters: "\<forall>c \<in> set ''dockerfile''. lower_char c = c \<and> \<not> isspace c"
  by (simp add: lower_char_def upper_letters_def lower_letters_def isspace_def)

lemma lazy_lstrip_append_spaces:
  "spaces w \<Longrightarrow> lazy_group (lstrip (r @ w)) = lazy_group (lstrip r)"
  by (simp add: lstrip_append_spaces lazy_group_append_spaces lstrip_spaces)

lemma match_here_append_spaces: "spaces w \<Longrightarrow> match_here (t @ w) = match_here t"
proof (cases "prefix fence t")
  case False
  assume "spaces w"
  with False show ?thesis by (simp add: match_here_simp prefix_fence_append_spaces)
next
  case True
  assume w: "spaces w"
  from True have "3 \<le> length t" by (auto simp: prefix_def fence_def)
  then have d: "drop 3 (t @ w) = drop 3 t @ w" by simp
  have m: "match_literal_ci ''dockerfile'' (drop 3 t @ w) =
           map_option (\<lambda>x. x @ w) (match_literal_ci ''dockerfile'' (drop 3 t))"
    using w dockerfile_letters by (rule match_literal_append_spaces)
  show ?thesis
    unfolding match_here_simp [of "t @ w"] match_here_simp [of t] d m
    using w True
    by (cases "match_literal_ci ''dockerfile'' (drop 3 t)")
       (simp_all add: prefix_fence_append_spaces lazy_lstrip_append_spaces
          split: option.split)
qed

lemma match_here_space: "isspace c \<Longrightarrow> match_here (c # s) = None"
  by (simp add: match_here_def prefix_fence_space)

lemma re_search_spaces: "spaces w \<Longrightarrow> re_search w = None"
  by (induction w) (auto simp: match_here_space)

lemma re_search_append_spaces: "spaces w \<Longrightarrow> re_search (t @ w) = re_search t"
proof (induction t)
  case Nil
  then show ?case by (simp add: re_search_spaces)
next
  case (Cons c t)
  have "match_here ((c # t) @ w) = match_here (c # t)"
    using Cons.prems by (rule match_here_append_spaces)
  with Cons show ?case by (simp split: option.split)
qed

lemma re_search_spaces_append: "spaces w \<Longrightarrow> re_search (w @ t) = re_search t"
  by (induction w) (auto simp: match_here_space)

lemma re_search_strip: "re_search (strip s) = re_search s"
proof -
  obtain u where u: "spaces u" "s = u @ lstrip s" using lstrip_decomp by blast
  obtain w where w: "spaces w" "lstrip s = rstrip (lstrip s) @ w" using rstrip_decomp by blast
  have "re_search s = re_search (lstrip s)"
    using re_search_spaces_append [OF u(1), of "lstrip s"] u(2) by simp
  also have "\<dots> = re_search (rstrip (lstrip s))"
    using re_search_append_spaces [OF w(1), of "rstrip (lstrip s)"] w(2) by simp
  finally show ?thesis by (simp add: strip_def)
qed

lemma match_literal_suffix: "match_literal_ci p s = Some r \<Longrightarrow> \<exists>u. s = u @ r"
proof (induction p s rule: match_literal_ci.induct)
  case (3 p ps c cs)
  then have "match_literal_ci ps cs = Some r" by (auto split: if_splits)
  with 3 obtain u where "cs = u @ r" by (auto split: if_splits)
  then have "c # cs = (c # u) @ r" by simp
  then show ?case by blast
qed auto

lemma match_here_decomp:
  assumes "match_here s = Some g"
  shows "\<exists>m q. s = fence @ m @ fence @ q"
proof -
  from assms have pf: "prefix fence s" by (auto simp: match_here_simp split: if_splits)
  then have s: "s = fence @ drop 3 s" by (auto simp: prefix_def fence_def)
  from assms pf obtain r u where r: "drop 3 s = u @ r" "lazy_group (lstrip r) = Some g"
    by (auto simp: match_here_simp split: option.splits dest: match_literal_suffix)
  obtain v where v: "r = v @ lstrip r" using lstrip_decomp by blast
  obtain rest where rest: "lstrip r = g @ fence @ rest"
    using lazy_group_decomp [OF r(2)] by blast
  have "s = fence @ (u @ v @ g) @ fence @ rest"
    using s r(1) v rest by (metis append.assoc)
  then show ?thesis by blast
qed

lemma re_search_decomp:
  "re_search s = Some g \<Longrightarrow> \<exists>p m q. s = p @ fence @ m @ fence @ q"
proof (induction s)
  case Nil
  then show ?case by simp
next
  case (Cons c s)
  show ?case
  proof (cases "match_here (c # s)")
    case None
    with Cons obtain p m q where "s = p @ fence @ m @ fence @ q" by auto
    then have "c # s = (c # p) @ fence @ m @ fence @ q" by simp
    then show ?thesis by blast
  next
    case (Some g')
    then obtain m q where "c # s = [] @ fence @ m @ fence @ q"
      using match_here_decomp by fastforce
    then show ?thesis by blast
  qed
qed

lemma partition_None: "\<not> sublist sep s \<Longrightarrow> partition sep s = None"
proof (induction s)
  case Nil
  then show ?case by simp
next
  case (Cons c s)
  have "\<not> prefix sep (c # s)" using Cons.prems by (auto dest: prefix_imp_sublist)
  moreover have "\<not> sublist sep s" using Cons.prems by (auto simp: sublist_Cons_right)
  ultimately show ?case using Cons.IH by simp
qed

lemma partition_Some_sublist: "partition sep s = Some (a, b) \<Longrightarrow> sublist sep s"
proof (induction s arbitrary: a)
  case Nil
  then show ?case by simp
next
  case (Cons c s)
  show ?case
  proof (cases "prefix sep (c # s)")
    case True
    then show ?thesis by (rule prefix_imp_sublist)
  next
    case False
    with Cons.prems obtain a' where "partition sep s = Some (a', b)" by auto
    then have "sublist sep s" by (rule Cons.IH)
    then show ?thesis by (simp add: sublist_Cons_right)
  qed
qed

lemma sublist_partition: "sublist sep s \<Longrightarrow> sep \<noteq> [] \<Longrightarrow> partition sep s \<noteq> None"
proof (induction s)
  case Nil
  then show ?case by simp
next
  case (Cons c s)
  show ?case
  proof (cases "prefix sep (c # s)")
    case True
    then show ?thesis by simp
  next
    case False
    with Cons.prems have "sublist sep s" by (auto simp: sublist_Cons_right)
    with Cons show ?thesis using False by simp
  qed
qed

lemma prefix_butlast_overlap:
  assumes "prefix sep (a @ sep @ b)" "a \<noteq> []"
  shows "prefix sep (a @ butlast sep)"
proof (cases "sep = []")
  case True
  then show ?thesis by simp
next
  case False
  have len: "length sep \<le> length (a @ butlast sep)" using assms(2) by (cases a) auto
  have "a @ sep @ b = (a @ butlast sep) @ (last sep # b)" using False by simp
  with assms(1) have "prefix sep ((a @ butlast sep) @ (last sep # b))" by simp
  then show ?thesis using len
    by (metis prefix_append prefix_length_le prefix_order.antisym_conv append_Nil2
          prefix_order.dual_order.refl prefix_same_cases Sublist.prefix_length_prefix)
qed

lemma partition_first:
  "sep \<noteq> [] \<Longrightarrow> \<not> sublist sep (a @ butlast sep) \<Longrightarrow> partition sep (a @ sep @ b) = Some (a, b)"
proof (induction a)
  case Nil
  then obtain x xs where "sep = x # xs" by (cases sep) auto
  then show ?case by simp
next
  case (Cons c a)
  have "\<not> prefix sep ((c # a) @ sep @ b)"
  proof
    assume "prefix sep ((c # a) @ sep @ b)"
    then have "prefix sep ((c # a) @ butlast sep)" by (rule prefix_butlast_overlap) simp
    then show False using Cons.prems(2) by (auto dest: prefix_imp_sublist)
  qed
  moreover have "\<not> sublist sep (a @ butlast sep)"
    using Cons.prems(2) by (auto simp: sublist_Cons_right)
  ultimately show ?case using Cons.IH Cons.prems(1) by simp
qed

lemma partition_skip:
  "\<not> sublist sep x \<Longrightarrow> c \<notin> set sep \<Longrightarrow> sep \<noteq> [] \<Longrightarrow>
   partition sep (x @ c # t) = map_option (\<lambda>(a, b). (x @ c # a, b)) (partition sep t)"
proof (induction x)
  case Nil
  then have "\<not> prefix sep (c # t)" by (cases sep) auto
  then show ?case by (cases "partition sep t") auto
next
  case (Cons a x)
  have nsub: "\<not> sublist sep x" using Cons.prems(1) by (auto simp: sublist_Cons_right)
  have npre: "\<not> prefix sep (a # x)" using Cons.prems(1) by (auto dest: prefix_imp_sublist)
  have "\<not> prefix sep ((a # x) @ c # t)"
  proof
    assume "prefix sep ((a # x) @ c # t)"
    then consider "prefix sep (a # x)" | us where "sep = (a # x) @ us" "prefix us (c # t)"
      unfolding prefix_append by blast
    then show False
    proof cases
      case 1
      with npre show ?thesis by simp
    next
      case 2
      show ?thesis
      proof (cases us)
        case Nil
        with 2 npre show ?thesis by simp
      next
        case (Cons u us')
        with 2 have "u = c" by simp
        with 2 Cons Cons.prems(2) show ?thesis by simp
      qed
    qed
  qed
  then show ?case using Cons.IH [OF nsub Cons.prems(2,3)]
    by (cases "partition sep t") auto
qed

lemma splitlines_chars: "l \<in> set (splitlines s) \<Longrightarrow> set l \<subseteq> set s"
proof (induction s arbitrary: l rule: splitlines.induct)
  case 1
  then show ?case by simp
next
  case (2 c cs)
  show ?case
  proof (cases "c = CHR 0x0D \<and> cs \<noteq> [] \<and> hd cs = CHR 0x0A")
    case True
    with "2.prems" have "l = [] \<or> l \<in> set (splitlines (tl cs))" by auto
    moreover have "set (tl cs) \<subseteq> set cs" by (cases cs) auto
    ultimately show ?thesis using "2.IH"(1) [OF True] by auto
  next
    case False
    show ?thesis
    proof (cases "islinebreak c")
      case True
      with False "2.prems" have "l = [] \<or> l \<in> set (splitlines cs)" by auto
      then show ?thesis using "2.IH"(2) [OF False True] by auto
    next
      case nb: False
      show ?thesis
      proof (cases "splitlines cs")
        case Nil
        with False nb "2.prems" show ?thesis by auto
      next
        case (Cons x xs)
        with False nb "2.prems" have l: "l = c # x \<or> l \<in> set xs" by auto
        have "set x \<subseteq> set cs" using "2.IH"(3) [OF False nb, of x] Cons by simp
        moreover have "l \<in> set xs \<Longrightarrow> set l \<subseteq> set cs"
          using "2.IH"(3) [OF False nb, of l] Cons by simp
        ultimately show ?thesis using l by auto
      qed
    qed
  qed
qed

lemma splitlines_spaces: "spaces w \<Longrightarrow> \<forall>l \<in> set (splitlines w). spaces l"
  using splitlines_chars unfolding spaces_def by blast

lemma blank_tail_empty_line: "blank_tail L' L \<Longrightarrow> blank_tail ([] # L') ([] # L)"
proof -
  assume "blank_tail L' L"
  then obtain u Ws where h: "spaces u" "\<forall>l \<in> set Ws. spaces l" "L' = tail_ext L u Ws"
    unfolding blank_tail_def by blast
  show ?thesis
  proof (cases L)
    case Nil
    with h have "[] # L' = tail_ext ([] # L) [] Ws" by simp
    with h(2) show ?thesis unfolding blank_tail_def by (intro exI [of _ "[]"] exI [of _ Ws]) simp
  next
    case (Cons x xs)
    with h have "[] # L' = tail_ext ([] # L) u Ws" by simp
    with h show ?thesis unfolding blank_tail_def by blast
  qed
qed

lemma blank_tail_push: "blank_tail L' L \<Longrightarrow> blank_tail (push c L') (push c L)"
proof -
  assume "blank_tail L' L"
  then obtain u Ws where h: "spaces u" "\<forall>l \<in> set Ws. spaces l" "L' = tail_ext L u Ws"
    unfolding blank_tail_def by blast
  show ?thesis
  proof (cases L)
    case Nil
    show ?thesis
    proof (cases Ws)
      case Nil2: Nil
      with Nil h have "push c L' = tail_ext (push c L) [] []" by (simp add: push_def)
      then show ?thesis unfolding blank_tail_def
        by (intro exI [of _ "[]"] exI [of _ "[]"]) simp
    next
      case (Cons x xs)
      with Nil h have "push c L' = tail_ext (push c L) x xs" by (simp add: push_def)
      moreover have "spaces x" "\<forall>l \<in> set xs. spaces l" using h(2) Cons by auto
      ultimately show ?thesis unfolding blank_tail_def by blast
    qed
  next
    case (Cons l ls)
    have "push c L' = tail_ext (push c L) u Ws"
      using Cons h(3) by (cases ls) (simp_all add: push_def)
    with h show ?thesis unfolding blank_tail_def by blast
  qed
qed

lemma splitlines_Cons_plain:
  "\<not> islinebreak c \<Longrightarrow> splitlines (c # cs) = push c (splitlines cs)"
  by (auto simp: push_def islinebreak_def)

lemma splitlines_append_spaces:
  "spaces w \<Longrightarrow> blank_tail (splitlines (s @ w)) (splitlines s)"
proof (induction s rule: splitlines.induct)
  case 1
  then have "\<forall>l \<in> set (splitlines w). spaces l" by (rule splitlines_spaces)
  then show ?case unfolding blank_tail_def
    by (intro exI [of _ "[]"] exI [of _ "splitlines w"]) simp
next
  case (2 c cs)
  show ?case
  proof (cases "c = CHR 0x0D \<and> cs \<noteq> [] \<and> hd cs = CHR 0x0A")
    case True
    then have "splitlines ((c # cs) @ w) = [] # splitlines (tl cs @ w)" by simp
    moreover have "splitlines (c # cs) = [] # splitlines (tl cs)" using True by simp
    moreover have "blank_tail (splitlines (tl cs @ w)) (splitlines (tl cs))"
      using "2.IH"(1) [OF True "2.prems"] .
    ultimately show ?thesis by (simp add: blank_tail_empty_line)
  next
    case False
    show ?thesis
    proof (cases "islinebreak c")
      case True
      show ?thesis
      proof (cases "cs = []")
        case cs: True
        obtain w' where w': "splitlines ((c # cs) @ w) = [] # splitlines w'" "spaces w'"
        proof (cases "c = CHR 0x0D \<and> w \<noteq> [] \<and> hd w = CHR 0x0A")
          case t: True
          then have "splitlines ((c # cs) @ w) = [] # splitlines (tl w)" using cs by simp
          moreover have "spaces (tl w)" using "2.prems" by (cases w) auto
          ultimately show ?thesis using that by blast
        next
          case f: False
          then have "splitlines ((c # cs) @ w) = [] # splitlines w" using cs True by auto
          then show ?thesis using that "2.prems" by blast
        qed
        have "\<forall>l \<in> set (splitlines w'). spaces l" using w'(2) by (rule splitlines_spaces)
        moreover have "splitlines (c # cs) = [[]]" using cs True by simp
        moreover have "[] # splitlines w' = tail_ext [[]] [] (splitlines w')" by simp
        ultimately show ?thesis unfolding blank_tail_def w'(1)
          by (intro exI [of _ "[]"] exI [of _ "splitlines w'"]) simp
      next
        case cs: False
        then have "hd (cs @ w) = hd cs" "cs @ w \<noteq> []" by auto
        with False True cs have "splitlines ((c # cs) @ w) = [] # splitlines (cs @ w)" by auto
        moreover have "splitlines (c # cs) = [] # splitlines cs" using False True by auto
        moreover have "blank_tail (splitlines (cs @ w)) (splitlines cs)"
          using "2.IH"(2) [OF False True "2.prems"] .
        ultimately show ?thesis by (simp add: blank_tail_empty_line)
      qed
    next
      case nb: False
      have "splitlines ((c # cs) @ w) = push c (splitlines (cs @ w))"
        using splitlines_Cons_plain [OF nb, of "cs @ w"] by simp
      moreover have "splitlines (c # cs) = push c (splitlines cs)"
        using nb by (rule splitlines_Cons_plain)
      moreover have "blank_tail (splitlines (cs @ w)) (splitlines cs)"
        using "2.IH"(3) [OF False nb "2.prems"] .
      ultimately show ?thesis by (simp add: blank_tail_push)
    qed
  qed
qed

lemma strip_Nil [simp]: "strip [] = []"
  by (simp add: strip_def)

lemma next_index_dropWhile:
  "f [] = d \<Longrightarrow>
   (case next_index P L of Some i \<Rightarrow> f (drop i L) | None \<Rightarrow> d) = f (dropWhile (\<lambda>l. \<not> P l) L)"
proof (induction L)
  case Nil
  then show ?case by simp
next
  case (Cons x L)
  then show ?case by (cases "next_index P L") auto
qed

lemma extract_dockerfile_alt:
  "extract_dockerfile s =
     (case re_search s of Some g \<Rightarrow> strip g | None \<Rightarrow> from_tail (splitlines s))"
proof -
  have "(case next_index is_from_line (splitlines s) of
           Some i \<Rightarrow> strip (join ''\<newline>'' (drop i (splitlines s)))
         | None \<Rightarrow> []) = from_tail (splitlines s)"
    unfolding from_tail_def
    by (rule next_index_dropWhile [where f = "\<lambda>L. strip (join ''\<newline>'' L)"]) simp
  then show ?thesis by (cases "re_search s") (simp_all add: extract_dockerfile_def Let_def)
qed

lemma is_from_line_spaces: "spaces l \<Longrightarrow> \<not> is_from_line l"
  by (simp add: is_from_line_def strip_spaces upper_def startswith_def)

lemma is_from_line_append_spaces: "spaces u \<Longrightarrow> is_from_line (l @ u) = is_from_line l"
  by (simp add: is_from_line_def strip_append_spaces)

lemma is_from_line_Cons_space: "isspace c \<Longrightarrow> is_from_line (c # l) = is_from_line l"
  by (simp add: is_from_line_def strip_Cons_space)

lemma join_Cons: "join sep (x # xs) = x @ (if xs = [] then [] else sep @ join sep xs)"
  by (cases xs) auto

lemma join_spaces: "spaces sep \<Longrightarrow> \<forall>l \<in> set Ws. spaces l \<Longrightarrow> spaces (join sep Ws)"
  by (induction sep Ws rule: join.induct) auto

lemma newline_space: "spaces ''\<newline>''"
  by (simp add: isspace_def)

lemma tail_ext_nonempty: "L \<noteq> [] \<Longrightarrow> tail_ext L u Ws \<noteq> []"
  by (induction L u Ws rule: tail_ext.induct) auto

lemma join_tail_ext:
  "L \<noteq> [] \<Longrightarrow> spaces u \<Longrightarrow> \<forall>l \<in> set Ws. spaces l \<Longrightarrow>
   \<exists>v. spaces v \<and> join ''\<newline>'' (tail_ext L u Ws) = join ''\<newline>'' L @ v"
proof (induction L u Ws rule: tail_ext.induct)
  case (1 u Ws)
  then show ?case by simp
next
  case (2 l u Ws)
  have "join ''\<newline>'' (tail_ext [l] u Ws) =
        join ''\<newline>'' [l] @ (u @ (if Ws = [] then [] else ''\<newline>'' @ join ''\<newline>'' Ws))"
    by (simp add: join_Cons)
  moreover have "spaces (u @ (if Ws = [] then [] else ''\<newline>'' @ join ''\<newline>'' Ws))"
    using 2 join_spaces [OF newline_space, of Ws] newline_space by simp
  ultimately show ?case by blast
next
  case (3 l l2 ls u Ws)
  then obtain v where v: "spaces v"
      "join ''\<newline>'' (tail_ext (l2 # ls) u Ws) = join ''\<newline>'' (l2 # ls) @ v"
    by auto
  have ne: "tail_ext (l2 # ls) u Ws \<noteq> []" by (rule tail_ext_nonempty) simp
  have "join ''\<newline>'' (tail_ext (l # l2 # ls) u Ws) =
        l @ ''\<newline>'' @ join ''\<newline>'' (tail_ext (l2 # ls) u Ws)"
    using ne by (simp add: join_Cons)
  also have "\<dots> = join ''\<newline>'' (l # l2 # ls) @ v" using v(2) by simp
  finally show ?case using v(1) by blast
qed

lemma from_tail_blank_lines: "\<forall>l \<in> set Ws. spaces l \<Longrightarrow> from_tail Ws = []"
proof -
  assume "\<forall>l \<in> set Ws. spaces l"
  then have "\<forall>l \<in> set Ws. \<not> is_from_line l" using is_from_line_spaces by blast
  then have d: "dropWhile (\<lambda>l. \<not> is_from_line l) Ws = []"
    unfolding dropWhile_eq_Nil_conv by simp
  show ?thesis unfolding from_tail_def d by simp
qed

lemma from_tail_tail_ext:
  "spaces u \<Longrightarrow> \<forall>l \<in> set Ws. spaces l \<Longrightarrow> from_tail (tail_ext L u Ws) = from_tail L"
proof (induction L u Ws rule: tail_ext.induct)
  case (1 u Ws)
  then have "from_tail Ws = []" by (intro from_tail_blank_lines)
  moreover have "from_tail [] = []" by (simp add: from_tail_def)
  ultimately show ?case by simp
next
  case (2 l u Ws)
  show ?case
  proof (cases "is_from_line l")
    case True
    then have t: "is_from_line (l @ u)" using 2(1) by (simp add: is_from_line_append_spaces)
    obtain v where v: "spaces v" "join ''\<newline>'' (tail_ext [l] u Ws) = join ''\<newline>'' [l] @ v"
      using join_tail_ext [of "[l]" u Ws] 2 by auto
    have "from_tail (tail_ext [l] u Ws) = strip (join ''\<newline>'' (tail_ext [l] u Ws))"
      using t by (simp add: from_tail_def)
    also have "\<dots> = strip (join ''\<newline>'' [l])" using v by (simp add: strip_append_spaces)
    also have "\<dots> = from_tail [l]" using True by (simp add: from_tail_def)
    finally show ?thesis .
  next
    case False
    then have f: "\<not> is_from_line (l @ u)" using 2(1) by (simp add: is_from_line_append_spaces)
    have "from_tail (tail_ext [l] u Ws) = from_tail Ws" using f by (simp add: from_tail_def)
    also have "\<dots> = []" using 2(2) by (rule from_tail_blank_lines)
    also have "\<dots> = from_tail [l]" using False by (simp add: from_tail_def)
    finally show ?thesis .
  qed
next
  case (3 l l2 ls u Ws)
  show ?case
  proof (cases "is_from_line l")
    case True
    obtain v where v: "spaces v"
        "join ''\<newline>'' (tail_ext (l # l2 # ls) u Ws) = join ''\<newline>'' (l # l2 # ls) @ v"
      using join_tail_ext [of "l # l2 # ls" u Ws] 3(2,3) by auto
    have "from_tail (tail_ext (l # l2 # ls) u Ws) =
          strip (join ''\<newline>'' (tail_ext (l # l2 # ls) u Ws))"
      using True by (simp add: from_tail_def)
    also have "\<dots> = strip (join ''\<newline>'' (l # l2 # ls))"
      unfolding v(2) using v(1) by (rule strip_append_spaces)
    also have "\<dots> = from_tail (l # l2 # ls)" using True by (simp add: from_tail_def)
    finally show ?thesis .
  next
    case False
    then have "from_tail (tail_ext (l # l2 # ls) u Ws) = from_tail (tail_ext (l2 # ls) u Ws)"
      by (simp add: from_tail_def)
    also have "\<dots> = from_tail (l2 # ls)" using 3 by simp
    also have "\<dots> = from_tail (l # l2 # ls)" using False by (simp add: from_tail_def)
    finally show ?thesis .
  qed
qed

lemma from_tail_append_spaces:
  "spaces w \<Longrightarrow> from_tail (splitlines (s @ w)) = from_tail (splitlines s)"
  using splitlines_append_spaces [of w s] from_tail_tail_ext
  unfolding blank_tail_def by auto

lemma from_tail_Cons_space:
  assumes "isspace c"
  shows "from_tail (splitlines (c # s)) = from_tail (splitlines s)"
proof (cases "islinebreak c")
  case True
  have e: "from_tail ([] # L) = from_tail L" for L
    by (simp add: from_tail_def is_from_line_spaces)
  show ?thesis
  proof (cases "c = CHR 0x0D \<and> s \<noteq> [] \<and> hd s = CHR 0x0A")
    case crlf: True
    then obtain s' where s': "s = CHR 0x0A # s'" by (cases s) auto
    have "splitlines (c # s) = [] # splitlines s'" using crlf s' by simp
    moreover have "splitlines s = [] # splitlines s'" using s' by (simp add: islinebreak_def)
    ultimately show ?thesis by simp
  next
    case False
    then have "splitlines (c # s) = [] # splitlines s" using True by auto
    then show ?thesis by (simp add: e)
  qed
next
  case False
  then have p: "splitlines (c # s) = push c (splitlines s)" by (rule splitlines_Cons_plain)
  show ?thesis
  proof (cases "splitlines s")
    case Nil
    then have "splitlines (c # s) = [[c]]" using p by (simp add: push_def)
    moreover have "\<not> is_from_line [c]" using assms by (intro is_from_line_spaces) simp
    ultimately show ?thesis using Nil by (simp add: from_tail_def)
  next
    case (Cons l ls)
    then have q: "splitlines (c # s) = (c # l) # ls" using p by (simp add: push_def)
    have i: "is_from_line (c # l) = is_from_line l" using assms by (rule is_from_line_Cons_space)
    have j: "join ''\<newline>'' ((c # l) # ls) = c # join ''\<newline>'' (l # ls)" by (simp add: join_Cons)
    show ?thesis
      unfolding q Cons from_tail_def using i j assms by (simp add: strip_Cons_space)
  qed
qed

lemma from_tail_spaces_append:
  "spaces w \<Longrightarrow> from_tail (splitlines (w @ s)) = from_tail (splitlines s)"
proof (induction w)
  case Nil
  then show ?case by simp
next
  case (Cons a w)
  then have "from_tail (splitlines (a # (w @ s))) = from_tail (splitlines (w @ s))"
    by (intro from_tail_Cons_space) simp
  with Cons show ?case by (simp del: splitlines.simps)
qed

lemma from_tail_strip: "from_tail (splitlines (strip s)) = from_tail (splitlines s)"
proof -
  obtain u where u: "spaces u" "s = u @ lstrip s" using lstrip_decomp by blast
  obtain w where w: "spaces w" "lstrip s = rstrip (lstrip s) @ w" using rstrip_decomp by blast
  have "from_tail (splitlines s) = from_tail (splitlines (lstrip s))"
    using from_tail_spaces_append [OF u(1), of "lstrip s"] u(2) by simp
  also have "\<dots> = from_tail (splitlines (rstrip (lstrip s)))"
    using from_tail_append_spaces [OF w(1), of "rstrip (lstrip s)"] w(2) by simp
  finally show ?thesis by (simp add: strip_def)
qed

lemma extract_dockerfile_strip: "extract_dockerfile (strip s) = extract_dockerfile s"
  by (simp add: extract_dockerfile_alt re_search_strip from_tail_strip split: option.split)

section \<open>The extractor on a reply that is a string\<close>

lemma SUMMARY_nonempty: "SUMMARY \<noteq> []"
  by (simp add: SUMMARY_def)

lemma try_no_delimiter:
  assumes "\<not> sublist SUMMARY raw"
  shows "service_try (JStr raw) = Inr (extract_dockerfile raw, [])"
    and "cli_try (JStr raw) = Inr (extract_dockerfile raw)"
proof -
  have p: "partition SUMMARY raw = None" using assms by (rule partition_None)
  show "service_try (JStr raw) = Inr (extract_dockerfile raw, [])"
    by (simp add: service_try_def service_parse_def split_once_def p)
  show "cli_try (JStr raw) = Inr (extract_dockerfile raw)"
    by (simp add: cli_try_def cli_parse_def split_once_def p py_item_def and_then_def
          extract_dockerfile_strip)
qed

lemma try_partition:
  assumes "partition SUMMARY raw = Some (a, b)"
  shows "service_try (JStr raw) = Inr (extract_dockerfile a, strip b)"
    and "cli_try (JStr raw) = Inr (extract_dockerfile a)"
  using assms
  by (simp_all add: service_try_def cli_try_def service_parse_def cli_parse_def split_once_def
        py_item_def and_then_def extract_dockerfile_strip)

lemma extract_no_delimiter:
  assumes "\<not> sublist SUMMARY raw"
  shows "service_extract (JStr raw) = (JStr (extract_dockerfile raw), [])"
    and "cli_extract (JStr raw) = JStr (extract_dockerfile raw)"
  by (simp_all add: service_extract_def cli_extract_def try_no_delimiter [OF assms])

lemma extract_partition:
  assumes "partition SUMMARY raw = Some (a, b)"
  shows "service_extract (JStr raw) = (JStr (extract_dockerfile a), strip b)"
    and "cli_extract (JStr raw) = JStr (extract_dockerfile a)"
  by (simp_all add: service_extract_def cli_extract_def try_partition [OF assms])

section \<open>The extractor on the shapes of reply the spec names\<close>

lemma split_once_first:
  "\<not> sublist SUMMARY (a @ butlast SUMMARY) \<Longrightarrow> split_once SUMMARY (a @ SUMMARY @ b) = [a, b]"
  by (simp add: split_once_def partition_first SUMMARY_nonempty)

lemma butlast_SUMMARY: "butlast SUMMARY = ''---SUMMARY--''"
  by (simp add: SUMMARY_def)

lemma lstrip_append:
  "lstrip (a @ b) = (if spaces a then lstrip b else lstrip a @ b)"
  by (auto simp: lstrip_def spaces_def dropWhile_append)

lemma lstrip_fence: "lstrip (fence @ t) = fence @ t"
  by (simp add: fence_def lstrip_def isspace_def)

lemma strip_lstrip: "strip (lstrip s) = strip s"
  by (simp add: strip_def)

lemma match_literal_self:
  "\<forall>c \<in> set p. lower_char c = c \<Longrightarrow> match_literal_ci p (p @ r) = Some r"
  by (induction p) auto

lemma match_dockerfile_tag: "match_literal_ci ''dockerfile'' (''dockerfile'' @ r) = Some r"
  using dockerfile_letters by (intro match_literal_self) blast

lemma re_search_skip:
  "\<not> sublist fence (pre @ butlast fence) \<Longrightarrow> re_search (pre @ fence @ t) = re_search (fence @ t)"
proof (induction pre)
  case Nil
  then show ?case by simp
next
  case (Cons c pre)
  have "\<not> prefix fence ((c # pre) @ fence @ t)"
  proof
    assume "prefix fence ((c # pre) @ fence @ t)"
    then have "prefix fence ((c # pre) @ butlast fence)" by (rule prefix_butlast_overlap) simp
    then show False using Cons.prems by (auto dest: prefix_imp_sublist)
  qed
  then have "match_here ((c # pre) @ fence @ t) = None" by (simp add: match_here_def)
  moreover have "\<not> sublist fence (pre @ butlast fence)"
    using Cons.prems by (auto simp: sublist_Cons_right)
  ultimately show ?case using Cons.IH by simp
qed

lemma fenced_has_backtick: "raw = p @ fence @ m @ fence @ q \<Longrightarrow> CHR 0x60 \<in> set raw"
  by (simp add: fence_def)

lemma lazy_group_first:
  "\<not> sublist fence (g @ butlast fence) \<Longrightarrow> lazy_group (g @ fence @ t) = Some g"
proof (induction g)
  case Nil
  then show ?case by (simp add: lazy_group_fence)
next
  case (Cons c g)
  have "\<not> prefix fence ((c # g) @ fence @ t)"
  proof
    assume "prefix fence ((c # g) @ fence @ t)"
    then have "prefix fence ((c # g) @ butlast fence)" by (rule prefix_butlast_overlap) simp
    then show False using Cons.prems by (auto dest: prefix_imp_sublist)
  qed
  moreover have "\<not> sublist fence (g @ butlast fence)"
    using Cons.prems by (auto simp: sublist_Cons_right)
  ultimately show ?case using Cons.IH by simp
qed

lemma butlast_fence: "butlast fence = ''``''"
  by (simp add: fence_def)

lemma lazy_lstrip_first:
  assumes "\<not> sublist fence (r @ ''``'')"
  shows "lazy_group (lstrip (r @ fence @ t)) = Some (lstrip r)"
proof -
  have l: "lstrip (r @ fence @ t) = lstrip r @ fence @ t"
  proof (cases "spaces r")
    case True
    then have "lstrip (r @ fence @ t) = lstrip (fence @ t)" by (rule lstrip_spaces_append)
    then show ?thesis using True by (simp add: lstrip_fence lstrip_spaces)
  next
    case False
    then show ?thesis using lstrip_append [of r "fence @ t"] by simp
  qed
  obtain u where u: "r = u @ lstrip r" using lstrip_decomp by blast
  then have "r @ ''``'' = u @ (lstrip r @ ''``'')" by simp
  then have "suffix (lstrip r @ ''``'') (r @ ''``'')" by (metis suffixI)
  then have "\<not> sublist fence (lstrip r @ butlast fence)"
    using assms unfolding butlast_fence
    by (meson sublist_order.order.trans suffix_imp_sublist)
  then show ?thesis unfolding l by (rule lazy_group_first)
qed

lemma match_literal_append_other:
  "w = [] \<or> (\<forall>c \<in> set p. lower_char (hd w) \<noteq> lower_char c) \<Longrightarrow>
   match_literal_ci p (r @ w) = map_option (\<lambda>x. x @ w) (match_literal_ci p r)"
proof (induction p r rule: match_literal_ci.induct)
  case (1 s)
  then show ?case by simp
next
  case (2 p ps)
  then show ?case by (cases w) auto
next
  case (3 p ps c cs)
  then show ?case by auto
qed

lemma lower_char_backtick: "lower_char (CHR 0x60) = CHR 0x60"
  by (simp add: lower_char_def upper_letters_def lower_letters_def)

lemma match_tag_before_fence:
  "match_literal_ci ''dockerfile'' (C @ fence @ t) =
   map_option (\<lambda>x. x @ fence @ t) (match_literal_ci ''dockerfile'' C)"
proof -
  have "\<forall>c \<in> set ''dockerfile''. lower_char (hd (fence @ t)) \<noteq> lower_char c"
    using dockerfile_letters by (simp add: fence_def lower_char_backtick)
  then show ?thesis by (intro match_literal_append_other) blast
qed

lemma match_literal_take:
  "match_literal_ci p s =
     (if length p \<le> length s \<and> map lower_char (take (length p) s) = map lower_char p
      then Some (drop (length p) s) else None)"
  by (induction p s rule: match_literal_ci.induct) auto

lemma lower_dockerfile: "map lower_char ''dockerfile'' = ''dockerfile''"
  using dockerfile_letters by simp

lemma untagged_match:
  "untagged C = (case match_literal_ci ''dockerfile'' C of Some r \<Rightarrow> r | None \<Rightarrow> C)"
proof -
  have len: "length ''dockerfile'' = 10" by simp
  have m: "match_literal_ci ''dockerfile'' C =
      (if 10 \<le> length C \<and> map lower_char (take 10 C) = ''dockerfile''
       then Some (drop 10 C) else None)"
    using match_literal_take [of "''dockerfile''" C] by (simp only: len lower_dockerfile)
  show ?thesis
  proof (cases "map lower_char (take 10 C) = ''dockerfile''")
    case True
    then have "length (map lower_char (take 10 C)) = length ''dockerfile''" by (simp only:)
    then have "10 \<le> length C" by (simp only: len) simp
    with True show ?thesis by (simp only: m untagged_def if_True simp_thms option.case)
  next
    case False
    then show ?thesis by (simp only: m untagged_def if_False simp_thms option.case)
  qed
qed

lemma re_search_at_fence:
  "match_here (fence @ t) = Some g \<Longrightarrow> re_search (fence @ t) = Some g"
proof -
  assume m: "match_here (fence @ t) = Some g"
  obtain c cs where "fence @ t = c # cs" by (auto simp: fence_def)
  then show ?thesis using m by (metis option.simps(5) re_search.simps(2))
qed

lemma match_first_block:
  assumes "\<not> sublist fence (C @ ''``'')"
  shows "\<exists>g. match_here (fence @ C @ fence @ post) = Some g \<and> strip g = strip (untagged C)"
proof -
  have d: "drop 3 (fence @ t) = t" for t by (simp add: fence_def)
  have pf: "prefix fence (fence @ t)" for t by simp
  show ?thesis
  proof (cases "match_literal_ci ''dockerfile'' C")
    case None
    then have u: "untagged C = C" by (simp add: untagged_match)
    have "match_here (fence @ C @ fence @ post) = Some (lstrip C)"
      unfolding match_here_simp d match_tag_before_fence None
      using lazy_lstrip_first [OF assms, of post] by simp
    then show ?thesis using u by (simp add: strip_lstrip)
  next
    case (Some r)
    then have u: "untagged C = r" by (simp add: untagged_match)
    obtain x where x: "C = x @ r" using match_literal_suffix [OF Some] by blast
    then have "suffix (r @ ''``'') (C @ ''``'')" by (simp add: suffix_def)
    then have n: "\<not> sublist fence (r @ ''``'')"
      using assms by (meson sublist_order.order.trans suffix_imp_sublist)
    have "match_here (fence @ C @ fence @ post) = Some (lstrip r)"
      unfolding match_here_simp d match_tag_before_fence Some
      using lazy_lstrip_first [OF n, of post] by simp
    then show ?thesis using u by (simp add: strip_lstrip)
  qed
qed

lemma extract_first_block:
  assumes "\<not> sublist fence (pre @ ''``'')" "\<not> sublist fence (C @ ''``'')"
  shows "extract_dockerfile (pre @ fence @ C @ fence @ post) = strip (untagged C)"
proof -
  obtain g where g: "match_here (fence @ C @ fence @ post) = Some g"
      "strip g = strip (untagged C)"
    using match_first_block [OF assms(2)] by blast
  have "re_search (fence @ C @ fence @ post) = Some g" using g(1) by (rule re_search_at_fence)
  moreover have "\<not> sublist fence (pre @ butlast fence)" using assms(1) by (simp add: butlast_fence)
  ultimately have "re_search (pre @ fence @ C @ fence @ post) = Some g"
    using re_search_skip by simp
  then show ?thesis by (simp add: extract_dockerfile_alt g(2))
qed

lemma partition_skip_foreign:
  "\<forall>c \<in> set p. c \<notin> set sep \<Longrightarrow> sep \<noteq> [] \<Longrightarrow>
   partition sep (p @ t) = map_option (\<lambda>(a, b). (p @ a, b)) (partition sep t)"
proof (induction p)
  case Nil
  then show ?case by (cases "partition sep t") auto
next
  case (Cons c p)
  have n: "\<not> sublist sep []" using Cons.prems(2) by simp
  have "partition sep ([] @ c # (p @ t)) =
      map_option (\<lambda>(a, b). ([] @ c # a, b)) (partition sep (p @ t))"
    using n by (rule partition_skip) (use Cons.prems in auto)
  then show ?case using Cons by (cases "partition sep t") auto
qed

lemma sublist_skip_foreign:
  assumes "\<forall>c \<in> set p. c \<notin> set (sep :: string)" "sep \<noteq> []" "sublist sep (p @ t)"
  shows "sublist sep t"
proof -
  have "partition sep (p @ t) \<noteq> None" using assms(3,2) by (rule sublist_partition)
  then have "partition sep t \<noteq> None"
    using partition_skip_foreign [OF assms(1,2), of t] by auto
  then obtain a b where "partition sep t = Some (a, b)" by auto
  then show ?thesis by (rule partition_Some_sublist)
qed

lemma space_not_in_SUMMARY: "isspace c \<Longrightarrow> c \<notin> set SUMMARY"
  by (auto simp: isspace_def SUMMARY_def)

lemma partition_tagged_block:
  assumes "\<not> sublist SUMMARY X" "spaces W"
  shows "partition SUMMARY ((fence @ ''dockerfile'') @ X @ fence @ W @ SUMMARY @ Y) =
         Some ((fence @ ''dockerfile'') @ X @ fence @ W, Y)"
proof -
  define T3 where "T3 = (''``'' @ W) @ SUMMARY @ Y"
  define T2 where "T2 = X @ CHR 0x60 # T3"
  have 4: "partition SUMMARY (SUMMARY @ Y) = Some ([], Y)"
    using partition_first [OF SUMMARY_nonempty, of "[]" Y] by (simp add: SUMMARY_def sublist_code)
  have fw: "\<forall>c \<in> set (''``'' @ W). c \<notin> set SUMMARY"
    using assms(2) space_not_in_SUMMARY by (auto simp: spaces_def SUMMARY_def)
  have 3: "partition SUMMARY T3 = Some (''``'' @ W, Y)"
    unfolding T3_def
    using partition_skip_foreign [OF fw SUMMARY_nonempty, of "SUMMARY @ Y"]
    by (simp only: 4 option.map prod.case append_Nil2)
  have b: "CHR 0x60 \<notin> set SUMMARY" by (simp add: SUMMARY_def)
  have 2: "partition SUMMARY T2 = Some (X @ CHR 0x60 # ''``'' @ W, Y)"
    unfolding T2_def
    using partition_skip [OF assms(1) b SUMMARY_nonempty, of T3]
    by (simp only: 3 option.map prod.case)
  have fp: "\<forall>c \<in> set (fence @ ''dockerfile''). c \<notin> set SUMMARY"
    by (simp add: fence_def SUMMARY_def)
  have 1: "partition SUMMARY ((fence @ ''dockerfile'') @ T2) =
      Some ((fence @ ''dockerfile'') @ X @ CHR 0x60 # ''``'' @ W, Y)"
    using partition_skip_foreign [OF fp SUMMARY_nonempty, of T2]
    by (simp only: 2 option.map prod.case)
  have t: "X @ fence @ W @ SUMMARY @ Y = T2" by (simp add: T2_def T3_def fence_def)
  have u: "X @ fence @ W = X @ CHR 0x60 # ''``'' @ W" by (simp add: fence_def)
  show ?thesis unfolding t u by (rule 1)
qed

lemma extract_tagged:
  assumes "\<not> sublist fence (X @ ''``'')"
  shows "extract_dockerfile ((fence @ ''dockerfile'') @ X @ fence @ W) = strip X"
proof -
  have "\<not> sublist fence ((''dockerfile'' @ X) @ ''``'')"
  proof
    assume "sublist fence ((''dockerfile'' @ X) @ ''``'')"
    then have "sublist fence (''dockerfile'' @ (X @ ''``''))" by simp
    then have "sublist fence (X @ ''``'')"
      by (rule sublist_skip_foreign [rotated 2]) (simp_all add: fence_def)
    with assms show False by simp
  qed
  moreover have "\<not> sublist fence ([] @ ''``'')" by (simp add: fence_def sublist_code)
  ultimately have "extract_dockerfile ([] @ fence @ (''dockerfile'' @ X) @ fence @ W) =
      strip (untagged (''dockerfile'' @ X))"
    by (intro extract_first_block)
  moreover have "untagged (''dockerfile'' @ X) = X"
    by (simp only: untagged_match match_dockerfile_tag option.case)
  ultimately show ?thesis by simp
qed

lemma untagged_after_space: "isspace c \<Longrightarrow> untagged (c # C) = c # C"
proof -
  assume "isspace c"
  then have "lower_char c = c" "c \<noteq> CHR ''d''"
    by (simp_all add: lower_char_space) (auto simp: isspace_def)
  then show ?thesis by (simp add: untagged_def)
qed

lemma splitlines_nonempty: "s \<noteq> [] \<Longrightarrow> splitlines s \<noteq> []"
  by (cases s) (auto split: list.splits)

lemma push_append: "A \<noteq> [] \<Longrightarrow> push c (A @ B) = push c A @ B"
  by (cases A) (auto simp: push_def)

lemma splitlines_at_line_start:
  "before = [] \<or> islinebreak (last before) \<Longrightarrow> rest = [] \<or> hd rest \<noteq> CHR 0x0A \<Longrightarrow>
   splitlines (before @ rest) = splitlines before @ splitlines rest"
proof (induction before rule: splitlines.induct)
  case 1
  then show ?case by simp
next
  case (2 c cs)
  show ?case
  proof (cases "c = CHR 0x0D \<and> cs \<noteq> [] \<and> hd cs = CHR 0x0A")
    case True
    then have l: "tl cs = [] \<or> islinebreak (last (tl cs))"
      using "2.prems"(1) by (cases cs; cases "tl cs") auto
    have "splitlines ((c # cs) @ rest) = [] # splitlines (tl cs @ rest)" using True by simp
    also have "\<dots> = [] # splitlines (tl cs) @ splitlines rest"
      using "2.IH"(1) [OF True l "2.prems"(2)] by simp
    also have "\<dots> = splitlines (c # cs) @ splitlines rest" using True by simp
    finally show ?thesis .
  next
    case False
    show ?thesis
    proof (cases "islinebreak c")
      case True
      show ?thesis
      proof (cases "cs = []")
        case cs: True
        have "\<not> (c = CHR 0x0D \<and> rest \<noteq> [] \<and> hd rest = CHR 0x0A)" using "2.prems"(2) by auto
        then have "splitlines (c # rest) = [] # splitlines rest" using True by auto
        moreover have "splitlines [c] = [[]]" using True by simp
        ultimately show ?thesis using cs by simp
      next
        case cs: False
        then have l: "cs = [] \<or> islinebreak (last cs)" using "2.prems"(1) by simp
        have h: "hd (cs @ rest) = hd cs" "cs @ rest \<noteq> []" using cs by auto
        have "splitlines ((c # cs) @ rest) = [] # splitlines (cs @ rest)"
          using False True h cs by auto
        also have "\<dots> = [] # splitlines cs @ splitlines rest"
          using "2.IH"(2) [OF False True l "2.prems"(2)] by simp
        also have "\<dots> = splitlines (c # cs) @ splitlines rest" using False True by auto
        finally show ?thesis .
      qed
    next
      case nb: False
      then have cs: "cs \<noteq> []" using "2.prems"(1) by auto
      then have l: "cs = [] \<or> islinebreak (last cs)" using "2.prems"(1) by simp
      have "splitlines ((c # cs) @ rest) = push c (splitlines (cs @ rest))"
        using splitlines_Cons_plain [OF nb, of "cs @ rest"] by simp
      also have "\<dots> = push c (splitlines cs @ splitlines rest)"
        using "2.IH"(3) [OF False nb l "2.prems"(2)] by simp
      also have "\<dots> = push c (splitlines cs) @ splitlines rest"
        using splitlines_nonempty [OF cs] by (rule push_append)
      also have "\<dots> = splitlines (c # cs) @ splitlines rest"
        using splitlines_Cons_plain [OF nb, of cs] by simp
      finally show ?thesis .
    qed
  qed
qed

lemma splitlines_first_line:
  "s \<noteq> [] \<Longrightarrow> \<exists>ls. splitlines s = takeWhile (\<lambda>c. \<not> islinebreak c) s # ls"
proof (induction s rule: splitlines.induct)
  case 1
  then show ?case by simp
next
  case (2 c cs)
  show ?case
  proof (cases "islinebreak c")
    case True
    then show ?thesis by auto
  next
    case False
    then have p: "splitlines (c # cs) = push c (splitlines cs)" by (rule splitlines_Cons_plain)
    have n: "\<not> (c = CHR 0x0D \<and> cs \<noteq> [] \<and> hd cs = CHR 0x0A)"
      using False by (auto simp: islinebreak_def)
    show ?thesis
    proof (cases "cs = []")
      case True
      then show ?thesis using False by simp
    next
      case cs: False
      then obtain ls where "splitlines cs = takeWhile (\<lambda>c. \<not> islinebreak c) cs # ls"
        using "2.IH"(3) [OF n False] by blast
      then show ?thesis using p False by (simp add: push_def)
    qed
  qed
qed

lemma next_index_append:
  "\<forall>l \<in> set A. \<not> P l \<Longrightarrow> P b \<Longrightarrow> next_index P (A @ b # ls) = Some (length A)"
  by (induction A) auto

lemma join_push: "join sep (push c L) = c # join sep L"
  by (cases L) (auto simp: push_def join_Cons)

lemma unify_join: "\<exists>t. spaces t \<and> unify_line_ends s = join ''\<newline>'' (splitlines s) @ t"
proof (induction s rule: splitlines.induct)
  case 1
  show ?case by (intro exI [of _ "[]"]) simp
next
  case (2 c cs)
  have nl: "isspace (CHR 0x0A)" by (simp add: isspace_def)
  have step: "\<exists>t. spaces t \<and> CHR 0x0A # unify_line_ends r = join ''\<newline>'' ([] # splitlines r) @ t"
    if "\<exists>t. spaces t \<and> unify_line_ends r = join ''\<newline>'' (splitlines r) @ t" for r
  proof -
    from that obtain t where t: "spaces t"
        "unify_line_ends r = join ''\<newline>'' (splitlines r) @ t" by blast
    show ?thesis
    proof (cases "splitlines r = []")
      case True
      then have "CHR 0x0A # unify_line_ends r = join ''\<newline>'' ([] # splitlines r) @ (CHR 0x0A # t)"
        using t(2) by simp
      moreover have "spaces (CHR 0x0A # t)" using t(1) nl by simp
      ultimately show ?thesis by blast
    next
      case False
      then have "CHR 0x0A # unify_line_ends r = join ''\<newline>'' ([] # splitlines r) @ t"
        using t(2) by (simp add: join_Cons)
      with t(1) show ?thesis by blast
    qed
  qed
  show ?case
  proof (cases "c = CHR 0x0D \<and> cs \<noteq> [] \<and> hd cs = CHR 0x0A")
    case True
    then show ?thesis using step [OF "2.IH"(1) [OF True]] by simp
  next
    case False
    show ?thesis
    proof (cases "islinebreak c")
      case True
      then show ?thesis using False step [OF "2.IH"(2) [OF False True]] by auto
    next
      case nb: False
      obtain t where t: "spaces t"
          "unify_line_ends cs = join ''\<newline>'' (splitlines cs) @ t"
        using "2.IH"(3) [OF False nb] by blast
      have "unify_line_ends (c # cs) = c # unify_line_ends cs" using False nb by auto
      moreover have "join ''\<newline>'' (splitlines (c # cs)) = c # join ''\<newline>'' (splitlines cs)"
        using splitlines_Cons_plain [OF nb, of cs] by (simp only: join_push)
      ultimately have "unify_line_ends (c # cs) = join ''\<newline>'' (splitlines (c # cs)) @ t"
        using t(2) by simp
      with t(1) show ?thesis by blast
    qed
  qed
qed

lemma strip_join_splitlines: "strip (join ''\<newline>'' (splitlines s)) = strip (unify_line_ends s)"
proof -
  obtain t where "spaces t" "unify_line_ends s = join ''\<newline>'' (splitlines s) @ t"
    using unify_join by blast
  then show ?thesis by (simp add: strip_append_spaces)
qed

lemma unify_line_feeds_only:
  "\<forall>c \<in> set s. islinebreak c \<longrightarrow> c = CHR 0x0A \<Longrightarrow> unify_line_ends s = s"
proof (induction s rule: unify_line_ends.induct)
  case 1
  then show ?case by simp
next
  case (2 c cs)
  have n: "\<not> (c = CHR 0x0D \<and> cs \<noteq> [] \<and> hd cs = CHR 0x0A)"
    using "2.prems" by (auto simp: islinebreak_def)
  show ?case
  proof (cases "islinebreak c")
    case True
    then have "c = CHR 0x0A" using "2.prems" by simp
    then show ?thesis using n True "2.IH"(2) [OF n True] "2.prems" by simp
  next
    case False
    then show ?thesis using n "2.IH"(3) [OF n False] "2.prems" by simp
  qed
qed

lemma is_from_line_Nil: "\<not> is_from_line []"
  by (rule is_from_line_spaces) simp

text \<open>
  C1, as stated. The claim holds for no reply whose block contains the delimiter: the
  reply is split at the first delimiter (main.py 115, cli.py 95), which then lies inside
  the block. With the comment line \<^verbatim>\<open># ---SUMMARY--- here\<close> in the Dockerfile, the section
  has no closing fence, the FROM scan takes over, and the result is neither the content
  of the block, trimmed, nor the text after the block's delimiter, trimmed.
\<close>

theorem delimiter_inside_block_counterexample:
  "service_extract (JStr
     ''```dockerfile\<newline>FROM a\<newline># ---SUMMARY--- here\<newline>```\<newline>---SUMMARY---\<newline>ok'') =
     (JStr ''FROM a\<newline>#'', ''here\<newline>```\<newline>---SUMMARY---\<newline>ok'') \<and>
   cli_extract (JStr
     ''```dockerfile\<newline>FROM a\<newline># ---SUMMARY--- here\<newline>```\<newline>---SUMMARY---\<newline>ok'') =
     JStr ''FROM a\<newline>#'' \<and>
   strip ''\<newline>FROM a\<newline># ---SUMMARY--- here\<newline>'' = ''FROM a\<newline># ---SUMMARY--- here'' \<and>
   strip ''\<newline>ok'' = ''ok''"
  by code_simp

text \<open>
  C1, amended. For a reply \<^verbatim>\<open>```dockerfile\<close> \<open>X\<close> \<^verbatim>\<open>```\<close> \<open>W\<close> \<^verbatim>\<open>---SUMMARY---\<close> \<open>Y\<close>,
  where \<open>X\<close> is all the text between the tag and the closing fence (its line feeds
  included), \<open>W\<close> is whitespace (one line feed in the spec's example, two in the format
  the system prompt asks for), \<open>X\<close> does not contain the delimiter, and no three backticks
  in a row begin inside \<open>X\<close> (\<open>X\<close> contains none and does not end with a backtick), the
  service returns \<open>X\<close> trimmed and \<open>Y\<close> trimmed and the command-line tool returns \<open>X\<close>
  trimmed. \<open>Y\<close> is arbitrary.
\<close>

theorem well_formed_reply_extracted:
  assumes "\<not> sublist fence (X @ ''``'')"
      and "\<not> sublist SUMMARY X"
      and "\<forall>c \<in> set W. isspace c"
  shows "service_extract (JStr (''```dockerfile'' @ X @ ''```'' @ W @ ''---SUMMARY---'' @ Y)) =
           (JStr (strip X), strip Y) \<and>
         cli_extract (JStr (''```dockerfile'' @ X @ ''```'' @ W @ ''---SUMMARY---'' @ Y)) =
           JStr (strip X)"
proof -
  let ?raw = "''```dockerfile'' @ X @ ''```'' @ W @ ''---SUMMARY---'' @ Y"
  let ?a = "(fence @ ''dockerfile'') @ X @ fence @ W"
  have w: "spaces W" using assms(3) by (simp add: spaces_def)
  have r: "?raw = (fence @ ''dockerfile'') @ X @ fence @ W @ SUMMARY @ Y"
    by (simp add: fence_def SUMMARY_def)
  have p: "partition SUMMARY ?raw = Some (?a, Y)"
    unfolding r using assms(2) w by (rule partition_tagged_block)
  have e: "extract_dockerfile ?a = strip X" using assms(1) by (rule extract_tagged)
  show ?thesis unfolding extract_partition [OF p] e by simp
qed

theorem well_formed_reply_extracted_witness:
  "service_extract (JStr
     ''```dockerfile\<newline>FROM a\<newline>RUN b\<newline>```\<newline>\<newline>---SUMMARY---\<newline>ok '') =
     (JStr ''FROM a\<newline>RUN b'', ''ok'') \<and>
   cli_extract (JStr
     ''```dockerfile\<newline>FROM a\<newline>RUN b\<newline>```\<newline>\<newline>---SUMMARY---\<newline>ok '') =
     JStr ''FROM a\<newline>RUN b''"
proof -
  have f: "\<not> sublist fence (''\<newline>FROM a\<newline>RUN b\<newline>'' @ ''``'')"
    by (simp add: fence_def sublist_code)
  have d: "\<not> sublist SUMMARY ''\<newline>FROM a\<newline>RUN b\<newline>''" by (simp add: SUMMARY_def sublist_code)
  have w: "\<forall>c \<in> set ''\<newline>\<newline>''. isspace c" by (simp add: isspace_def)
  have x: "strip ''\<newline>FROM a\<newline>RUN b\<newline>'' = ''FROM a\<newline>RUN b''" by code_simp
  have y: "strip ''\<newline>ok '' = ''ok''" by code_simp
  show ?thesis
    using well_formed_reply_extracted [OF f d w, of "''\<newline>ok ''"] x y by simp
qed

text \<open>
  C3, as stated. A reply without the delimiter that contains the fenced block
  \<^verbatim>\<open>```\<close>, line feed, \<open>foo\<close>, line feed, \<^verbatim>\<open>```\<close> after an earlier block gives the content of
  the earlier block, \<open>js\<close>, not \<open>foo\<close>: \<open>re.search\<close> returns the leftmost match.
\<close>

theorem later_fenced_block_counterexample:
  "service_extract (JStr ''```\<newline>js\<newline>``` and ```\<newline>foo\<newline>```'') = (JStr ''js'', []) \<and>
   cli_extract (JStr ''```\<newline>js\<newline>``` and ```\<newline>foo\<newline>```'') = JStr ''js'' \<and>
   ''```\<newline>js\<newline>``` and ```\<newline>foo\<newline>```'' =
     ''```\<newline>js\<newline>``` and '' @ ''```\<newline>'' @ ''foo'' @ ''\<newline>```'' \<and>
   strip ''foo'' = ''foo''"
  by code_simp

text \<open>
  C3, amended. For a reply without the delimiter, let \<open>C\<close> be all the text between the
  first three backticks of the reply and the next three backticks (no three backticks in
  a row begin inside \<open>pre\<close> or inside \<open>C\<close>). The service returns \<open>C\<close> without a leading
  word \<open>dockerfile\<close> (any letter case), trimmed, with the empty summary; the command-line
  tool returns the same text. When \<open>C\<close> is \<open>X\<close> between whitespace, not empty before
  \<open>X\<close> (the spec's example has a line feed on each side), that text is \<open>X\<close> trimmed.
  Another language tag stays in the result, and a later block is not looked at.
\<close>

theorem first_fenced_block_without_delimiter:
  assumes "raw = pre @ ''```'' @ C @ ''```'' @ post"
      and "\<not> sublist SUMMARY raw"
      and "\<not> sublist fence (pre @ ''``'')"
      and "\<not> sublist fence (C @ ''``'')"
  shows "service_extract (JStr raw) = (JStr (strip (untagged C)), []) \<and>
         cli_extract (JStr raw) = JStr (strip (untagged C)) \<and>
         (C = W1 @ X @ W2 \<and> W1 \<noteq> [] \<and> (\<forall>c \<in> set (W1 @ W2). isspace c) \<longrightarrow>
            strip (untagged C) = strip X)"
proof -
  have r: "raw = pre @ fence @ C @ fence @ post" using assms(1) by (simp add: fence_def)
  have e: "extract_dockerfile raw = strip (untagged C)"
    unfolding r using assms(3,4) by (rule extract_first_block)
  have "strip (untagged C) = strip X"
    if c: "C = W1 @ X @ W2" and n: "W1 \<noteq> []" and s: "\<forall>c \<in> set (W1 @ W2). isspace c"
  proof -
    obtain a W1' where a: "W1 = a # W1'" using n by (cases W1) auto
    then have "isspace a" using s by simp
    then have "untagged C = C" unfolding c a by (simp add: untagged_after_space)
    moreover have "spaces W1" "spaces W2" using s by (simp_all add: spaces_def)
    then have "strip (W1 @ X @ W2) = strip X"
      using strip_append_spaces [of W2 "W1 @ X"] strip_spaces_append [of W1 X] by simp
    ultimately show ?thesis using c by simp
  qed
  then show ?thesis unfolding extract_no_delimiter [OF assms(2)] e by blast
qed

theorem first_fenced_block_without_delimiter_witness:
  "service_extract (JStr ''Here: ```\<newline>FROM a\<newline>RUN b\<newline>``` done'') =
     (JStr ''FROM a\<newline>RUN b'', []) \<and>
   cli_extract (JStr ''Here: ```\<newline>FROM a\<newline>RUN b\<newline>``` done'') = JStr ''FROM a\<newline>RUN b''"
proof -
  have r: "''Here: ```\<newline>FROM a\<newline>RUN b\<newline>``` done'' =
      ''Here: '' @ ''```'' @ ''\<newline>FROM a\<newline>RUN b\<newline>'' @ ''```'' @ '' done''"
    by simp
  have d: "\<not> sublist SUMMARY ''Here: ```\<newline>FROM a\<newline>RUN b\<newline>``` done''"
    by (simp add: SUMMARY_def sublist_code)
  have p: "\<not> sublist fence (''Here: '' @ ''``'')" by (simp add: fence_def sublist_code)
  have f: "\<not> sublist fence (''\<newline>FROM a\<newline>RUN b\<newline>'' @ ''``'')"
    by (simp add: fence_def sublist_code)
  have c: "''\<newline>FROM a\<newline>RUN b\<newline>'' = ''\<newline>'' @ ''FROM a\<newline>RUN b'' @ ''\<newline>''" by simp
  have n: "''\<newline>'' \<noteq> []" by simp
  have s: "\<forall>c \<in> set (''\<newline>'' @ ''\<newline>''). isspace c" by (simp add: isspace_def)
  have x: "strip ''FROM a\<newline>RUN b'' = ''FROM a\<newline>RUN b''" by code_simp
  note t = first_fenced_block_without_delimiter [OF r d p f, of "''\<newline>''" "''FROM a\<newline>RUN b''"
      "''\<newline>''"]
  have u: "strip (untagged ''\<newline>FROM a\<newline>RUN b\<newline>'') = ''FROM a\<newline>RUN b''"
    using t c n s x by (metis (no_types))
  have 1: "service_extract (JStr ''Here: ```\<newline>FROM a\<newline>RUN b\<newline>``` done'') =
      (JStr (strip (untagged ''\<newline>FROM a\<newline>RUN b\<newline>'')), [])"
    using t by (rule conjunct1)
  have 2: "cli_extract (JStr ''Here: ```\<newline>FROM a\<newline>RUN b\<newline>``` done'') =
      JStr (strip (untagged ''\<newline>FROM a\<newline>RUN b\<newline>''))"
    using t by (elim conjE)
  show ?thesis unfolding 1 2 u by simp
qed

text \<open>
  C4, as stated. On the reply \<open>FROM a\<close>, carriage return, line feed, \<open>RUN b\<close>, the text
  from the first FROM line to the end is the whole reply, which trimming leaves as it is.
  The code splits the section into lines and joins them with line feeds (main.py 136-139,
  cli.py 104-107), so it returns the two lines joined by a line feed, a text that does not
  occur in the reply.
\<close>

theorem carriage_return_reply_counterexample:
  "service_extract (JStr (''FROM a'' @ [CHR 0x0D, CHR 0x0A] @ ''RUN b'')) =
     (JStr ''FROM a\<newline>RUN b'', []) \<and>
   cli_extract (JStr (''FROM a'' @ [CHR 0x0D, CHR 0x0A] @ ''RUN b'')) = JStr ''FROM a\<newline>RUN b'' \<and>
   strip (''FROM a'' @ [CHR 0x0D, CHR 0x0A] @ ''RUN b'') =
     ''FROM a'' @ [CHR 0x0D, CHR 0x0A] @ ''RUN b'' \<and>
   ''FROM a'' @ [CHR 0x0D, CHR 0x0A] @ ''RUN b'' \<noteq> ''FROM a\<newline>RUN b''"
  by code_simp

text \<open>
  C4, amended. Let a reply with neither the delimiter nor a fenced block (no two separate
  occurrences of three backticks) be \<open>before\<close> followed by \<open>rest\<close>, where \<open>rest\<close> begins at the
  start of a line, its first line is one whose trimmed, upper-cased form starts with
  \<open>FROM\<close> and a space, and no line of \<open>before\<close> is such a line. Both entry points return
  \<open>rest\<close> with every line end replaced by a line feed, trimmed (the summary of the service
  is empty). When the only line ends in \<open>rest\<close> are line feeds, that is \<open>rest\<close> trimmed:
  the trimmed text from the first such line to the end.
\<close>

theorem from_line_fallback:
  assumes "raw = before @ rest"
      and "before = [] \<or> islinebreak (last before)"
      and "\<forall>l \<in> set (splitlines before). \<not> is_from_line l"
      and "is_from_line (takeWhile (\<lambda>c. \<not> islinebreak c) rest)"
      and "\<not> sublist SUMMARY raw"
      and "\<not> (\<exists>p m q. raw = p @ fence @ m @ fence @ q)"
  shows "service_extract (JStr raw) = (JStr (strip (unify_line_ends rest)), []) \<and>
         cli_extract (JStr raw) = JStr (strip (unify_line_ends rest)) \<and>
         ((\<forall>c \<in> set rest. islinebreak c \<longrightarrow> c = CHR 0x0A) \<longrightarrow>
            strip (unify_line_ends rest) = strip rest)"
proof -
  have ne: "rest \<noteq> []" using assms(4) is_from_line_Nil by auto
  have "\<not> islinebreak (hd rest)"
  proof
    assume "islinebreak (hd rest)"
    then have "takeWhile (\<lambda>c. \<not> islinebreak c) rest = []" using ne by (cases rest) auto
    with assms(4) is_from_line_Nil show False by simp
  qed
  then have h: "rest = [] \<or> hd rest \<noteq> CHR 0x0A" by (auto simp: islinebreak_def)
  have sl: "splitlines raw = splitlines before @ splitlines rest"
    unfolding assms(1) using assms(2) h by (rule splitlines_at_line_start)
  obtain ls where ls: "splitlines rest = takeWhile (\<lambda>c. \<not> islinebreak c) rest # ls"
    using splitlines_first_line [OF ne] by blast
  have x: "next_index is_from_line (splitlines raw) = Some (length (splitlines before))"
    unfolding sl ls using assms(3,4) by (rule next_index_append)
  have d: "drop (length (splitlines before)) (splitlines raw) = splitlines rest"
    unfolding sl by simp
  have n: "re_search raw = None"
  proof (cases "re_search raw")
    case None
    then show ?thesis .
  next
    case (Some g)
    then have "\<exists>p m q. raw = p @ fence @ m @ fence @ q" by (rule re_search_decomp)
    with assms(6) show ?thesis by simp
  qed
  have e: "extract_dockerfile raw = strip (unify_line_ends rest)"
    by (simp add: extract_dockerfile_def n x d strip_join_splitlines)
  have u: "(\<forall>c \<in> set rest. islinebreak c \<longrightarrow> c = CHR 0x0A) \<longrightarrow>
      strip (unify_line_ends rest) = strip rest"
    by (simp add: unify_line_feeds_only)
  show ?thesis unfolding extract_no_delimiter [OF assms(5)] e using u by simp
qed

theorem from_line_fallback_witness:
  "service_extract (JStr ''Use this:\<newline>  from node\<newline>RUN x\<newline>'') =
     (JStr ''from node\<newline>RUN x'', []) \<and>
   cli_extract (JStr ''Use this:\<newline>  from node\<newline>RUN x\<newline>'') = JStr ''from node\<newline>RUN x''"
proof -
  let ?raw = "''Use this:\<newline>  from node\<newline>RUN x\<newline>''"
  have r: "?raw = ''Use this:\<newline>'' @ ''  from node\<newline>RUN x\<newline>''" by simp
  have b: "''Use this:\<newline>'' = [] \<or> islinebreak (last ''Use this:\<newline>'')"
    by (simp add: islinebreak_def)
  have sb: "splitlines ''Use this:\<newline>'' = [''Use this:'']" by code_simp
  have u: "\<not> is_from_line ''Use this:''" by code_simp
  have l: "\<forall>l \<in> set (splitlines ''Use this:\<newline>''). \<not> is_from_line l"
    by (simp only: sb) (simp add: u)
  have tw: "takeWhile (\<lambda>c. \<not> islinebreak c) ''  from node\<newline>RUN x\<newline>'' = ''  from node''"
    by (simp add: islinebreak_def)
  have t: "is_from_line ''  from node''" by code_simp
  have f: "is_from_line (takeWhile (\<lambda>c. \<not> islinebreak c) ''  from node\<newline>RUN x\<newline>'')"
    by (simp only: tw t)
  have d: "\<not> sublist SUMMARY ?raw" by (simp add: SUMMARY_def sublist_code)
  have "CHR 0x60 \<notin> set ?raw" by simp
  then have nf: "\<not> (\<exists>p m q. ?raw = p @ fence @ m @ fence @ q)"
    using fenced_has_backtick by blast
  have lf: "\<forall>c \<in> set ''  from node\<newline>RUN x\<newline>''. islinebreak c \<longrightarrow> c = CHR 0x0A"
    by (simp add: islinebreak_def)
  have s: "strip ''  from node\<newline>RUN x\<newline>'' = ''from node\<newline>RUN x''" by code_simp
  note t = from_line_fallback [OF r b l f d nf]
  have v: "strip (unify_line_ends ''  from node\<newline>RUN x\<newline>'') = ''from node\<newline>RUN x''"
    using t lf s by (metis (no_types))
  have 1: "service_extract (JStr ?raw) =
      (JStr (strip (unify_line_ends ''  from node\<newline>RUN x\<newline>'')), [])"
    using t by (rule conjunct1)
  have 2: "cli_extract (JStr ?raw) = JStr (strip (unify_line_ends ''  from node\<newline>RUN x\<newline>''))"
    using t by (elim conjE)
  show ?thesis unfolding 1 2 v by simp
qed

text \<open>
  C5. The reply is split at the first occurrence of the delimiter and nowhere else. When
  \<open>raw = a @ SUMMARY @ b\<close> and the delimiter does not occur in \<open>raw\<close> at a position
  before the end of \<open>a\<close>, the split gives exactly the two parts \<open>a\<close> and \<open>b\<close>: the
  summary is \<open>b\<close> trimmed (later delimiters stay in it), and the Dockerfile is extracted
  from \<open>a\<close>, trimmed, as its section. When the delimiter does not occur, the split gives
  the reply as its only part and the summary is the empty string.
\<close>

theorem split_at_first_delimiter:
  "(raw = a @ SUMMARY @ b \<and> \<not> sublist SUMMARY (a @ butlast SUMMARY) \<longrightarrow>
      split_once SUMMARY raw = [a, b] \<and>
      service_extract (JStr raw) = (JStr (extract_dockerfile (strip a)), strip b) \<and>
      cli_extract (JStr raw) = JStr (extract_dockerfile (strip a))) \<and>
   (\<not> sublist SUMMARY raw \<longrightarrow>
      split_once SUMMARY raw = [raw] \<and> snd (service_extract (JStr raw)) = [])"
proof -
  have "split_once SUMMARY raw = [a, b] \<and>
      service_extract (JStr raw) = (JStr (extract_dockerfile (strip a)), strip b) \<and>
      cli_extract (JStr raw) = JStr (extract_dockerfile (strip a))"
    if r: "raw = a @ SUMMARY @ b" and f: "\<not> sublist SUMMARY (a @ butlast SUMMARY)"
  proof -
    have p: "partition SUMMARY raw = Some (a, b)"
      unfolding r using SUMMARY_nonempty f by (rule partition_first)
    then show ?thesis
      by (simp add: extract_partition split_once_def extract_dockerfile_strip)
  qed
  moreover have "split_once SUMMARY raw = [raw] \<and> snd (service_extract (JStr raw)) = []"
    if n: "\<not> sublist SUMMARY raw"
    using partition_None [OF n] extract_no_delimiter(1) [OF n]
    by (simp add: split_once_def)
  ultimately show ?thesis by blast
qed

theorem split_at_first_delimiter_witness:
  "split_once SUMMARY ''FROM a\<newline>---SUMMARY---\<newline>x---SUMMARY---y'' =
     [''FROM a\<newline>'', ''\<newline>x---SUMMARY---y''] \<and>
   service_extract (JStr ''FROM a\<newline>---SUMMARY---\<newline>x---SUMMARY---y'') =
     (JStr ''FROM a'', ''x---SUMMARY---y'') \<and>
   cli_extract (JStr ''FROM a\<newline>---SUMMARY---\<newline>x---SUMMARY---y'') = JStr ''FROM a'' \<and>
   snd (service_extract (JStr ''FROM a'')) = []"
proof -
  have r: "''FROM a\<newline>---SUMMARY---\<newline>x---SUMMARY---y'' =
      ''FROM a\<newline>'' @ SUMMARY @ ''\<newline>x---SUMMARY---y''"
    by (simp add: SUMMARY_def)
  have f: "\<not> sublist SUMMARY (''FROM a\<newline>'' @ butlast SUMMARY)"
    by (simp add: SUMMARY_def sublist_code)
  have n: "\<not> sublist SUMMARY ''FROM a''" by (simp add: SUMMARY_def sublist_code)
  have e: "extract_dockerfile (strip ''FROM a\<newline>'') = ''FROM a''" by code_simp
  have s: "strip ''\<newline>x---SUMMARY---y'' = ''x---SUMMARY---y''" by code_simp
  show ?thesis
    using r f n e s
      split_at_first_delimiter [of "''FROM a\<newline>---SUMMARY---\<newline>x---SUMMARY---y''"
        "''FROM a\<newline>''" "''\<newline>x---SUMMARY---y''"]
      split_at_first_delimiter [of "''FROM a''" "[]" "[]"]
    by simp
qed

section \<open>The missing fallback and the agreement of the two entry points\<close>

text \<open>
  C2. The spec says that a reply in which neither a fenced block nor a FROM line is found
  yields the raw Dockerfile section, and that a reply with none of the markers is returned
  unchanged. Both files leave \<open>dockerfile_content\<close> at its initial value in that case:
  on the reply \<open>hello\<close> the service returns the empty string as the Dockerfile (and an
  empty summary), and the command-line tool returns the empty string.
\<close>

theorem reply_without_markers_yields_empty_text:
  "service_extract (JStr ''hello'') = (JStr [], []) \<and> cli_extract (JStr ''hello'') = JStr []"
  by code_simp

text \<open>
  C9. On every reply that is a string, the Dockerfile text the command-line tool extracts
  is the Dockerfile component the HTTP service extracts. The two differ in the source only
  where the delimiter is absent: the tool trims the reply before searching it, the service
  does not, and trimming changes neither the fenced block found nor the trimmed text from
  the first FROM line.
\<close>

theorem cli_extract_agrees_with_service:
  "cli_extract (JStr raw) = fst (service_extract (JStr raw))"
proof (cases "partition SUMMARY raw")
  case None
  then have "\<not> sublist SUMMARY raw"
    using sublist_partition [of SUMMARY raw] SUMMARY_nonempty by blast
  then show ?thesis by (simp add: extract_no_delimiter)
next
  case (Some ab)
  then obtain a b where "partition SUMMARY raw = Some (a, b)" by (cases ab) auto
  then show ?thesis by (simp add: extract_partition)
qed

section \<open>Input validation and the empty response\<close>

lemma exit_with_fields [simp]:
  "exit_code (exit_with code lines) = code"
  "stderr (exit_with code lines) = lines"
  "stdout (exit_with code lines) = []"
  "writes (exit_with code lines) = []"
  "posts (exit_with code lines) = []"
  by (simp_all add: exit_with_def)

lemma read_input_error_nonempty: "read_input w args = Inl err \<Longrightarrow> err \<noteq> []"
  by (auto simp: read_input_def split: if_splits file_read.splits stdin_read.splits)

lemma empty_reply_content: "empty_reply data \<Longrightarrow> reply_content data = JStr []"
  by (auto simp: empty_reply_def reply_content_def try_content_def and_then_def)

text \<open>
  C6. A Dockerfile text that is empty or consists of whitespace only is rejected before
  any outbound call: the handler of the service fails with status 400 and has made no
  call; the command-line tool, having read such a text, exits with code 1, has printed a
  diagnostic on the error stream and nothing on standard output, and has made no call.
\<close>

theorem blank_dockerfile_rejected:
  "\<forall>c \<in> set dockerfile. isspace c \<Longrightarrow>
   optimize env post dockerfile = (Inl (HTTPException 400 ''dockerfile is required''), []) \<and>
   (read_input w args = Inr dockerfile \<longrightarrow>
      exit_code (main w args) = 1 \<and> stderr (main w args) \<noteq> [] \<and>
      stdout (main w args) = [] \<and> posts (main w args) = [])"
proof -
  assume "\<forall>c \<in> set dockerfile. isspace c"
  then have s: "strip dockerfile = []" by (intro strip_spaces) (simp add: spaces_def)
  have "optimize env post dockerfile = (Inl (HTTPException 400 ''dockerfile is required''), [])"
    by (simp add: optimize_def s)
  moreover have "read_input w args = Inr dockerfile \<longrightarrow>
      exit_code (main w args) = 1 \<and> stderr (main w args) \<noteq> [] \<and>
      stdout (main w args) = [] \<and> posts (main w args) = []"
    by (simp add: main_def Let_def s)
  ultimately show ?thesis by simp
qed

theorem blank_dockerfile_rejected_witness:
  "optimize \<lparr>ABACUS_API_KEY = Some ''k'', ABACUS_MODEL = None\<rparr> refusing_endpoint '' \<newline>'' =
     (Inl (HTTPException 400 ''dockerfile is required''), []) \<and>
   exit_code (main \<lparr>env_api_key = Some ''k'', read_file = no_file, read_stdin = StdinText '' \<newline>'',
       write_file = accept_write, session_post = refusing_endpoint\<rparr>
     \<lparr>arg_input = None, arg_output = None, arg_model = ''gpt-5-mini'', arg_api_key = None\<rparr>) = 1 \<and>
   stderr (main \<lparr>env_api_key = Some ''k'', read_file = no_file, read_stdin = StdinText '' \<newline>'',
       write_file = accept_write, session_post = refusing_endpoint\<rparr>
     \<lparr>arg_input = None, arg_output = None, arg_model = ''gpt-5-mini'', arg_api_key = None\<rparr>) =
     [''Error: No Dockerfile content provided''] \<and>
   posts (main \<lparr>env_api_key = Some ''k'', read_file = no_file, read_stdin = StdinText '' \<newline>'',
       write_file = accept_write, session_post = refusing_endpoint\<rparr>
     \<lparr>arg_input = None, arg_output = None, arg_model = ''gpt-5-mini'', arg_api_key = None\<rparr>) = []"
proof -
  have h: "\<forall>c \<in> set '' \<newline>''. isspace c" by (simp add: isspace_def)
  have r: "read_input \<lparr>env_api_key = Some ''k'', read_file = no_file,
       read_stdin = StdinText '' \<newline>'', write_file = accept_write,
       session_post = refusing_endpoint\<rparr>
     \<lparr>arg_input = None, arg_output = None, arg_model = ''gpt-5-mini'', arg_api_key = None\<rparr> =
     Inr '' \<newline>''"
    by (simp add: read_input_def present_def)
  have e: "stderr (main \<lparr>env_api_key = Some ''k'', read_file = no_file,
       read_stdin = StdinText '' \<newline>'', write_file = accept_write,
       session_post = refusing_endpoint\<rparr>
     \<lparr>arg_input = None, arg_output = None, arg_model = ''gpt-5-mini'', arg_api_key = None\<rparr>) =
     [''Error: No Dockerfile content provided'']"
    using h by (simp add: main_def Let_def r present_def strip_spaces spaces_def)
  show ?thesis
    using h r e blank_dockerfile_rejected [OF h,
        of "\<lparr>ABACUS_API_KEY = Some ''k'', ABACUS_MODEL = None\<rparr>" refusing_endpoint
        "\<lparr>env_api_key = Some ''k'', read_file = no_file, read_stdin = StdinText '' \<newline>'',
          write_file = accept_write, session_post = refusing_endpoint\<rparr>"
        "\<lparr>arg_input = None, arg_output = None, arg_model = ''gpt-5-mini'', arg_api_key = None\<rparr>"]
    by simp
qed

text \<open>
  C7, as stated. The claim gives status 500 to every invocation of the service without a
  key. The handler checks the Dockerfile text first (main.py 41-42, before 44-46): with
  an empty text and no key it fails with status 400.
\<close>

theorem missing_key_blank_dockerfile_counterexample:
  "fst (optimize \<lparr>ABACUS_API_KEY = None, ABACUS_MODEL = None\<rparr> refusing_endpoint []) =
     Inl (HTTPException 400 ''dockerfile is required'') \<and>
   fst (optimize \<lparr>ABACUS_API_KEY = None, ABACUS_MODEL = None\<rparr> refusing_endpoint []) \<noteq>
     Inl (HTTPException 500 ''ABACUS_API_KEY is not set'')"
  by (simp add: optimize_def)

text \<open>
  C7, amended. Without a key no outbound call is made by either entry point. The handler
  of the service fails with status 500 when the Dockerfile text is not blank (and with
  status 400 when it is blank, the first check). The command-line tool, with no
  \<open>--api-key\<close> argument and the environment variable unset or empty, exits with code 1
  having printed its two diagnostic lines on the error stream.
\<close>

theorem missing_key_rejected:
  "(\<not> present (ABACUS_API_KEY env) \<longrightarrow>
      snd (optimize env post dockerfile) = [] \<and>
      (strip dockerfile \<noteq> [] \<longrightarrow>
         fst (optimize env post dockerfile) = Inl (HTTPException 500 ''ABACUS_API_KEY is not set'')) \<and>
      (strip dockerfile = [] \<longrightarrow>
         fst (optimize env post dockerfile) = Inl (HTTPException 400 ''dockerfile is required''))) \<and>
   (\<not> present (arg_api_key args) \<and> \<not> present (env_api_key w) \<longrightarrow>
      exit_code (main w args) = 1 \<and>
      stderr (main w args) = [''Error: ABACUS_API_KEY environment variable not set'',
                              ''Set it with: export ABACUS_API_KEY=your_key_here''] \<and>
      stdout (main w args) = [] \<and> posts (main w args) = [])"
proof -
  have "strip dockerfile \<noteq> [] \<Longrightarrow> dockerfile \<noteq> []" by auto
  then show ?thesis
    by (auto simp: optimize_def main_def present_def Let_def split: option.splits)
qed

theorem missing_key_rejected_witness:
  "optimize \<lparr>ABACUS_API_KEY = None, ABACUS_MODEL = None\<rparr> refusing_endpoint ''FROM a'' =
     (Inl (HTTPException 500 ''ABACUS_API_KEY is not set''), []) \<and>
   exit_code (main \<lparr>env_api_key = Some [], read_file = no_file, read_stdin = StdinText ''FROM a'',
       write_file = accept_write, session_post = refusing_endpoint\<rparr>
     \<lparr>arg_input = None, arg_output = None, arg_model = ''gpt-5-mini'', arg_api_key = None\<rparr>) = 1 \<and>
   posts (main \<lparr>env_api_key = Some [], read_file = no_file, read_stdin = StdinText ''FROM a'',
       write_file = accept_write, session_post = refusing_endpoint\<rparr>
     \<lparr>arg_input = None, arg_output = None, arg_model = ''gpt-5-mini'', arg_api_key = None\<rparr>) = []"
proof -
  have k: "\<not> present (ABACUS_API_KEY \<lparr>ABACUS_API_KEY = None, ABACUS_MODEL = None\<rparr>)"
    by (simp add: present_def)
  have s: "strip ''FROM a'' \<noteq> []" by (simp add: strip_def lstrip_def rstrip_def isspace_def)
  have a: "\<not> present (arg_api_key
     \<lparr>arg_input = None, arg_output = None, arg_model = ''gpt-5-mini'', arg_api_key = None\<rparr>)"
    by (simp add: present_def)
  have e: "\<not> present (env_api_key \<lparr>env_api_key = Some [], read_file = no_file,
       read_stdin = StdinText ''FROM a'', write_file = accept_write,
       session_post = refusing_endpoint\<rparr>)"
    by (simp add: present_def)
  show ?thesis
    using k s a e missing_key_rejected [of
        "\<lparr>ABACUS_API_KEY = None, ABACUS_MODEL = None\<rparr>" refusing_endpoint "''FROM a''"
        "\<lparr>arg_input = None, arg_output = None, arg_model = ''gpt-5-mini'', arg_api_key = None\<rparr>"
        "\<lparr>env_api_key = Some [], read_file = no_file, read_stdin = StdinText ''FROM a'',
          write_file = accept_write, session_post = refusing_endpoint\<rparr>"]
    by (metis prod.collapse)
qed

text \<open>
  C8, as stated. The service hands an error status of the endpoint on with the body as
  detail (main.py 89-90). An answer with status 502 whose body is the text
  \<open>Empty response from Abacus ChatLLM\<close> makes the handler fail exactly as an empty
  response does (main.py 107): the two cannot be told apart.
\<close>

theorem upstream_502_same_as_empty_reply_counterexample:
  "service_data (Response 502 ''Empty response from Abacus ChatLLM'' (Inl ''Expecting value'')) =
     Inl (HTTPException 502 ''Empty response from Abacus ChatLLM'') \<and>
   fst (optimize \<lparr>ABACUS_API_KEY = Some ''k'', ABACUS_MODEL = None\<rparr> bad_gateway_endpoint
          ''FROM a'') =
   fst (optimize \<lparr>ABACUS_API_KEY = Some ''k'', ABACUS_MODEL = None\<rparr> empty_choices_endpoint
          ''FROM a'')"
proof -
  have s: "strip ''FROM a'' \<noteq> []" by (simp add: strip_def lstrip_def rstrip_def isspace_def)
  have e: "reply_content (JObj [(''choices'', JArr [])]) = JStr []"
    by (simp add: reply_content_def try_content_def and_then_def)
  have 1: "service_data
      (Response 502 ''Empty response from Abacus ChatLLM'' (Inl ''Expecting value'')) =
     Inl (HTTPException 502 ''Empty response from Abacus ChatLLM'')"
    by (simp add: service_data_def)
  have 2: "fst (optimize \<lparr>ABACUS_API_KEY = Some ''k'', ABACUS_MODEL = None\<rparr>
      bad_gateway_endpoint ''FROM a'') =
      Inl (HTTPException 502 ''Empty response from Abacus ChatLLM'')"
    using s by (simp add: optimize_def Let_def bad_gateway_endpoint_def 1)
  have 3: "fst (optimize \<lparr>ABACUS_API_KEY = Some ''k'', ABACUS_MODEL = None\<rparr>
      empty_choices_endpoint ''FROM a'') =
      Inl (HTTPException 502 ''Empty response from Abacus ChatLLM'')"
    using s by (simp add: optimize_def Let_def empty_choices_endpoint_def service_data_def e)
  show ?thesis using 1 2 3 by simp
qed

text \<open>
  C8, amended. When the endpoint answers with a status below 400 and a parsed body whose
  \<open>choices\<close> list is empty, or whose first choice has the empty string as message
  content, the service fails with status 502 and the detail
  \<open>Empty response from Abacus ChatLLM\<close>, and \<open>optimize_dockerfile\<close> raises a
  \<open>RuntimeError\<close> with that text, instead of returning an empty result. In the
  command-line tool no outcome \<open>r\<close> of the call gives an error with that text. In the
  service the only outcome \<open>r\<close> of the call that gives the same failure is an answer of
  the endpoint with status 502 whose body is that very text; every timeout, other
  exception of the client library, undecodable body and other error status gives a
  different failure.
\<close>

theorem empty_reply_is_failure:
  "empty_reply data \<Longrightarrow> status < 400 \<Longrightarrow>
   \<forall>request. post request = Response status text (Inr data) \<Longrightarrow>
   (strip dockerfile \<noteq> [] \<and> ABACUS_API_KEY env = Some api_key \<and> api_key \<noteq> [] \<longrightarrow>
      fst (optimize env post dockerfile) =
        Inl (HTTPException 502 ''Empty response from Abacus ChatLLM'')) \<and>
   fst (optimize_dockerfile post dockerfile api_key mdl) =
     Inl (RuntimeError ''Empty response from Abacus ChatLLM'') \<and>
   (service_data r = Inl (HTTPException 502 ''Empty response from Abacus ChatLLM'') \<longrightarrow>
      (\<exists>body. r = Response 502 ''Empty response from Abacus ChatLLM'' body)) \<and>
   cli_data r \<noteq> Inl (RuntimeError ''Empty response from Abacus ChatLLM'')"
proof -
  assume e: "empty_reply data" and st: "status < 400"
    and p: "\<forall>request. post request = Response status text (Inr data)"
  have c: "reply_content data = JStr []" using e by (rule empty_reply_content)
  have 1: "strip dockerfile \<noteq> [] \<and> ABACUS_API_KEY env = Some api_key \<and> api_key \<noteq> [] \<longrightarrow>
      fst (optimize env post dockerfile) =
        Inl (HTTPException 502 ''Empty response from Abacus ChatLLM'')"
    using st p c by (auto simp: optimize_def service_data_def Let_def)
  have 2: "fst (optimize_dockerfile post dockerfile api_key mdl) =
     Inl (RuntimeError ''Empty response from Abacus ChatLLM'')"
    using st p c by (simp add: optimize_dockerfile_def cli_data_def Let_def)
  have 3: "service_data r = Inl (HTTPException 502 ''Empty response from Abacus ChatLLM'') \<longrightarrow>
      (\<exists>body. r = Response 502 ''Empty response from Abacus ChatLLM'' body)"
    by (cases r) (auto simp: service_data_def split: sum.splits if_splits)
  have 4: "cli_data r \<noteq> Inl (RuntimeError ''Empty response from Abacus ChatLLM'')"
    by (cases r) (auto simp: cli_data_def split: sum.splits)
  show ?thesis using 1 2 3 4 by blast
qed

theorem empty_reply_is_failure_witness:
  "empty_reply (JObj [(''choices'', JArr [])]) \<and>
   fst (optimize \<lparr>ABACUS_API_KEY = Some ''k'', ABACUS_MODEL = None\<rparr> empty_choices_endpoint
          ''FROM a'') =
     Inl (HTTPException 502 ''Empty response from Abacus ChatLLM'') \<and>
   fst (optimize_dockerfile empty_choices_endpoint ''FROM a'' ''k'' ''gpt-5-mini'') =
     Inl (RuntimeError ''Empty response from Abacus ChatLLM'') \<and>
   cli_data (Response 502 ''Empty response from Abacus ChatLLM'' (Inl ''Expecting value'')) \<noteq>
     Inl (RuntimeError ''Empty response from Abacus ChatLLM'')"
proof -
  have e: "empty_reply (JObj [(''choices'', JArr [])])" by (simp add: empty_reply_def)
  have st: "(200::int) < 400" by simp
  have p: "\<forall>request. empty_choices_endpoint request =
      Response 200 ''{\"choices\": []}'' (Inr (JObj [(''choices'', JArr [])]))"
    by (simp add: empty_choices_endpoint_def)
  have s: "strip ''FROM a'' \<noteq> []" by (simp add: strip_def lstrip_def rstrip_def isspace_def)
  show ?thesis
    using e s empty_reply_is_failure [OF e st p, of "''FROM a''"
        "\<lparr>ABACUS_API_KEY = Some ''k'', ABACUS_MODEL = None\<rparr>" "''k''" "''gpt-5-mini''"
        "Response 502 ''Empty response from Abacus ChatLLM'' (Inl ''Expecting value'')"]
    by simp
qed

section \<open>Totality of the extractor\<close>

lemma split_once_length: "length (split_once sep s) = 1 \<or> length (split_once sep s) = 2"
  by (cases "partition sep s") (auto simp: split_once_def)

lemma split_once_nonempty: "0 < length (split_once sep s)"
  using split_once_length [of sep s] by auto

lemma service_parse_returns:
  "\<exists>d s. service_parse raw = Inr (d, s)"
proof (cases "length (split_once SUMMARY raw) = 2")
  case True
  then show ?thesis by (simp add: service_parse_def py_item_def and_then_def Let_def)
next
  case False
  then show ?thesis by (simp add: service_parse_def Let_def)
qed

lemma cli_parse_returns: "\<exists>d. cli_parse raw = Inr d"
  using split_once_nonempty [of SUMMARY raw]
  by (simp add: cli_parse_def py_item_def and_then_def Let_def)

lemma reply_string_reaches_extraction:
  assumes "reply_content data = JStr raw" "raw \<noteq> []" "status < 400"
  shows "strip dockerfile \<noteq> [] \<Longrightarrow> ABACUS_API_KEY env = Some api_key \<Longrightarrow> api_key \<noteq> [] \<Longrightarrow>
         post (service_request api_key
                (case ABACUS_MODEL env of Some m \<Rightarrow> m | None \<Rightarrow> ''gpt-5-mini'') dockerfile) =
           Response status text (Inr data) \<Longrightarrow>
         fst (optimize env post dockerfile) =
           make_response (fst (service_extract (JStr raw))) (snd (service_extract (JStr raw)))"
    and "post (cli_request api_key mdl dockerfile) = Response status text (Inr data) \<Longrightarrow>
         fst (optimize_dockerfile post dockerfile api_key mdl) = Inr (cli_extract (JStr raw))"
proof -
  show "fst (optimize env post dockerfile) =
      make_response (fst (service_extract (JStr raw))) (snd (service_extract (JStr raw)))"
    if "strip dockerfile \<noteq> []" "ABACUS_API_KEY env = Some api_key" "api_key \<noteq> []"
      "post (service_request api_key
         (case ABACUS_MODEL env of Some m \<Rightarrow> m | None \<Rightarrow> ''gpt-5-mini'') dockerfile) =
           Response status text (Inr data)"
  proof -
    have "dockerfile \<noteq> []" using that(1) by auto
    then show ?thesis
      using that assms
      by (simp add: optimize_def Let_def service_data_def split: prod.split)
  qed
  show "fst (optimize_dockerfile post dockerfile api_key mdl) = Inr (cli_extract (JStr raw))"
    if "post (cli_request api_key mdl dockerfile) = Response status text (Inr data)"
    using that assms by (simp add: optimize_dockerfile_def Let_def cli_data_def)
qed

text \<open>
  C10. On every reply that is a string the body of the \<open>try\<close> runs to its end without
  raising, in both files: \<open>split\<close> gives one or two parts, so \<open>parts[0]\<close> exists, and
  \<open>parts[1]\<close> is read only when there are two. The \<open>except\<close> branch is not taken and the
  extractor returns a pair of strings (a string in the command-line tool); every function
  it calls is defined by recursion on the text, so the value exists for every reply.
  Whenever the content of the first choice is a string \<open>raw\<close> that is not empty, the
  handler of the service returns the response made of the pair extracted from \<open>raw\<close>, and
  \<open>optimize_dockerfile\<close> returns the text extracted from \<open>raw\<close>: no exception reaches the
  caller, and the result is the same whatever the environment, the Dockerfile sent, the
  status below 400 and the rest of the response are, so equal replies give equal results.
\<close>

theorem extraction_total_on_strings:
  "(\<exists>d s. service_try (JStr raw) = Inr (d, s) \<and> service_extract (JStr raw) = (JStr d, s)) \<and>
   (\<exists>d. cli_try (JStr raw) = Inr d \<and> cli_extract (JStr raw) = JStr d) \<and>
   (reply_content data = JStr raw \<and> raw \<noteq> [] \<and> status < 400 \<and>
    (\<forall>request. post request = Response status text (Inr data)) \<longrightarrow>
      (strip dockerfile \<noteq> [] \<and> ABACUS_API_KEY env = Some api_key \<and> api_key \<noteq> [] \<longrightarrow>
         (\<exists>d s. fst (optimize env post dockerfile) = Inr \<lparr>result = d, summary = s\<rparr> \<and>
                service_extract (JStr raw) = (JStr d, s))) \<and>
      (\<exists>d. fst (optimize_dockerfile post dockerfile api_key mdl) = Inr (JStr d) \<and>
           cli_extract (JStr raw) = JStr d))"
proof -
  obtain d s where ds: "service_try (JStr raw) = Inr (d, s)"
    using service_parse_returns [of raw] by (auto simp: service_try_def)
  then have se: "service_extract (JStr raw) = (JStr d, s)" by (simp add: service_extract_def)
  obtain d' where d': "cli_try (JStr raw) = Inr d'"
    using cli_parse_returns [of raw] by (auto simp: cli_try_def)
  then have ce: "cli_extract (JStr raw) = JStr d'" by (simp add: cli_extract_def)
  have h: "(strip dockerfile \<noteq> [] \<and> ABACUS_API_KEY env = Some api_key \<and> api_key \<noteq> [] \<longrightarrow>
         (\<exists>d s. fst (optimize env post dockerfile) = Inr \<lparr>result = d, summary = s\<rparr> \<and>
                service_extract (JStr raw) = (JStr d, s))) \<and>
      (\<exists>d. fst (optimize_dockerfile post dockerfile api_key mdl) = Inr (JStr d) \<and>
           cli_extract (JStr raw) = JStr d)"
    if a: "reply_content data = JStr raw" "raw \<noteq> []" "status < 400"
      and p: "\<forall>request. post request = Response status text (Inr data)"
  proof -
    have "fst (optimize env post dockerfile) = Inr \<lparr>result = d, summary = s\<rparr>"
      if "strip dockerfile \<noteq> []" "ABACUS_API_KEY env = Some api_key" "api_key \<noteq> []"
      using reply_string_reaches_extraction(1) [OF a that] p se by (simp add: make_response_def)
    moreover have "fst (optimize_dockerfile post dockerfile api_key mdl) = Inr (JStr d')"
      using reply_string_reaches_extraction(2) [OF a] p ce by simp
    ultimately show ?thesis using se ce by blast
  qed
  show ?thesis using ds se d' ce h by blast
qed

theorem extraction_total_on_strings_witness:
  "service_try (JStr ''FROM a'') = Inr (''FROM a'', []) \<and>
   fst (optimize \<lparr>ABACUS_API_KEY = Some ''k'', ABACUS_MODEL = None\<rparr> from_a_endpoint ''FROM b'') =
     Inr \<lparr>result = ''FROM a'', summary = []\<rparr> \<and>
   fst (optimize_dockerfile from_a_endpoint ''FROM b'' ''k'' ''gpt-5-mini'') = Inr (JStr ''FROM a'')"
proof -
  let ?data = "JObj [(''choices'',
      JArr [JObj [(''message'', JObj [(''content'', JStr ''FROM a'')])]])]"
  have c: "reply_content ?data = JStr ''FROM a''"
    by (simp add: reply_content_def try_content_def and_then_def)
  have n: "''FROM a'' \<noteq> []" by simp
  have st: "(200::int) < 400" by simp
  have p: "\<forall>request. from_a_endpoint request = Response 200 [] (Inr ?data)"
    by (simp add: from_a_endpoint_def)
  have s: "strip ''FROM b'' \<noteq> []" by (simp add: strip_def lstrip_def rstrip_def isspace_def)
  have k: "ABACUS_API_KEY \<lparr>ABACUS_API_KEY = Some ''k'', ABACUS_MODEL = None\<rparr> = Some ''k''"
    by simp
  have v: "service_try (JStr ''FROM a'') = Inr (''FROM a'', [])" by code_simp
  have w: "cli_try (JStr ''FROM a'') = Inr ''FROM a''" by code_simp
  have se: "service_extract (JStr ''FROM a'') = (JStr ''FROM a'', [])"
    by (simp add: service_extract_def v)
  have ce: "cli_extract (JStr ''FROM a'') = JStr ''FROM a''" by (simp add: cli_extract_def w)
  show ?thesis
    using c n st p s k v se ce
      extraction_total_on_strings [of "''FROM a''" ?data 200 from_a_endpoint "[]" "''FROM b''"
        "\<lparr>ABACUS_API_KEY = Some ''k'', ABACUS_MODEL = None\<rparr>" "''k''" "''gpt-5-mini''"]
    by auto
qed

end
